theory Spec2Isabelle
  imports Complex_Main "HOL-Library.Sublist" "HOL-Library.Monad_Syntax"
begin

section \<open>Entity model (src/index.tsx, interfaces Transaction .. Snapshot)\<close>

text \<open>
  A finite JavaScript \<^verbatim>\<open>number\<close> is given as the rational it denotes. The numbers
  stored in a record are finite (a number field of a form carries no other), so their
  type is \<open>number\<close>; the negative zero, which \<^verbatim>\<open>===\<close> does not tell from zero, is zero
  here. Not every rational is a value of binary64: \<open>is_double\<close> below says which are, and
  a rational that is none stands for the double nearest to it, as a decimal literal
  does. A \<open>string\<close> is the sequence of the bytes of its UTF-8 encoding, the encoding of
  the source file and of the backup documents. Record fields carry a prefix because a
  field name is a global constant in HOL (\<^verbatim>\<open>id\<close> occurs in four interfaces).
\<close>

type_synonym number = rat

subsection \<open>Arithmetic of binary64\<close>

text \<open>The values of the type \<^verbatim>\<open>number\<close> of JavaScript, the two zeros taken as one.\<close>

datatype double = Finite number | PlusInfinity | MinusInfinity | NaN

definition pow2 :: "int \<Rightarrow> rat" where
  "pow2 e = (if 0 \<le> e then 2 ^ nat e else 1 / 2 ^ nat (- e))"

text \<open>The number of binary digits of a positive integer.\<close>

function bit_length :: "int \<Rightarrow> int" where
  "bit_length n = (if n \<le> 0 then 0 else 1 + bit_length (n div 2))"
  by pat_completeness auto
termination
  by (relation "measure nat") auto

declare bit_length.simps [simp del]

text \<open>For a positive rational \<open>a\<close> the exponent \<open>e\<close> with \<open>pow2 e \<le> a < pow2 (e + 1)\<close>:
  the quotient of a numerator of \<open>m\<close> binary digits by a denominator of \<open>n\<close> lies
  strictly between \<open>pow2 (m - n - 1)\<close> and \<open>pow2 (m - n + 1)\<close>. (At 0 the value is -2.)\<close>

definition binary_exponent :: "rat \<Rightarrow> int" where
  "binary_exponent a =
     (case quotient_of a of (p, q) \<Rightarrow>
        (let d = bit_length p - bit_length q
         in if pow2 d \<le> a then d else d - 1))"

text \<open>The nearest integer, the even one of two that are equally near.\<close>

definition round_half_even :: "rat \<Rightarrow> int" where
  "round_half_even m =
     (let f = \<lfloor>m\<rfloor>; r = m - of_int f
      in if r < 1 / 2 then f else if 1 / 2 < r then f + 1 else if even f then f else f + 1)"

text \<open>
  Rounding of an exact result to binary64, to nearest with ties to even: 53 significant
  binary digits, the unit in the last place no smaller than \<open>pow2 (- 1074)\<close> (subnormal
  numbers), and an infinity where the rounded magnitude reaches \<open>pow2 1024\<close>, that is
  where its exponent reaches 1024.
\<close>

definition round_double :: "rat \<Rightarrow> double" where
  "round_double x =
     (if x = 0 then Finite 0
      else (let a = \<bar>x\<bar>;
                q = max (binary_exponent a - 52) (- 1074);
                y = of_int (round_half_even (a / pow2 q)) * pow2 q
            in if 1024 \<le> binary_exponent y then (if 0 < x then PlusInfinity else MinusInfinity)
               else Finite (if 0 < x then y else - y)))"


text \<open>\<^verbatim>\<open>a + b\<close> on numbers: the exact sum of two finite numbers, rounded; infinities of
  opposite sign add up to \<^verbatim>\<open>NaN\<close>.\<close>

fun js_plus :: "double \<Rightarrow> double \<Rightarrow> double" where
  "js_plus (Finite x) (Finite y) = round_double (x + y)"
| "js_plus NaN b = NaN"
| "js_plus a NaN = NaN"
| "js_plus PlusInfinity MinusInfinity = NaN"
| "js_plus MinusInfinity PlusInfinity = NaN"
| "js_plus PlusInfinity b = PlusInfinity"
| "js_plus a PlusInfinity = PlusInfinity"
| "js_plus MinusInfinity b = MinusInfinity"
| "js_plus a MinusInfinity = MinusInfinity"

datatype TransactionType = Receita | Despesa

datatype OpportunityStage = Lead | Proposta | Negociacao | Ganho | Perdido

record Transaction =
  tx_id :: string
  tx_description :: string
  tx_amount :: number
  tx_date :: string
  tx_type :: TransactionType

record Client =
  cl_id :: string
  cl_name :: string
  cl_company :: string
  cl_email :: string
  cl_phone :: string

record Opportunity =
  op_id :: string
  op_title :: string
  op_value :: number
  op_clientId :: string
  op_stage :: OpportunityStage

record AppState =
  transactions :: "Transaction list"
  clients :: "Client list"
  opportunities :: "Opportunity list"

record Snapshot =
  snap_id :: string
  snap_name :: string
  snap_timestamp :: nat
  snap_data :: AppState

section \<open>JSON documents\<close>

text \<open>
  A JSON text is represented by the value it denotes, so \<^verbatim>\<open>JSON.stringify\<close> maps a
  JavaScript value to a \<open>json\<close> tree (indentation, as in \<^verbatim>\<open>JSON.stringify(x, null, 2)\<close>,
  is not visible at this level) and \<^verbatim>\<open>JSON.parse\<close> of a text that is not JSON is the
  absent document \<open>None\<close>. The members of an object are kept in document order.
\<close>

datatype json =
    JNull
  | JBool bool
  | JNum number
  | JStr string
  | JArr "json list"
  | JObj "(string \<times> json) list"

definition stage_name :: "OpportunityStage \<Rightarrow> string" where
  "stage_name s = (case s of
      Lead \<Rightarrow> ''Lead''
    | Proposta \<Rightarrow> ''Proposta''
    | Negociacao \<Rightarrow> ''Negocia'' @ [CHR 0xC3, CHR 0xA7, CHR 0xC3, CHR 0xA3] @ ''o''
    | Ganho \<Rightarrow> ''Ganho''
    | Perdido \<Rightarrow> ''Perdido'')"

definition type_name :: "TransactionType \<Rightarrow> string" where
  "type_name t = (case t of Receita \<Rightarrow> ''receita'' | Despesa \<Rightarrow> ''despesa'')"

definition stringify_Transaction :: "Transaction \<Rightarrow> json" where
  "stringify_Transaction t = JObj
     [(''id'', JStr (tx_id t)), (''description'', JStr (tx_description t)),
      (''amount'', JNum (tx_amount t)), (''date'', JStr (tx_date t)),
      (''type'', JStr (type_name (tx_type t)))]"

definition stringify_Client :: "Client \<Rightarrow> json" where
  "stringify_Client c = JObj
     [(''id'', JStr (cl_id c)), (''name'', JStr (cl_name c)),
      (''company'', JStr (cl_company c)), (''email'', JStr (cl_email c)),
      (''phone'', JStr (cl_phone c))]"

definition stringify_Opportunity :: "Opportunity \<Rightarrow> json" where
  "stringify_Opportunity p = JObj
     [(''id'', JStr (op_id p)), (''title'', JStr (op_title p)),
      (''value'', JNum (op_value p)), (''clientId'', JStr (op_clientId p)),
      (''stage'', JStr (stage_name (op_stage p)))]"

definition stringify_AppState :: "AppState \<Rightarrow> json" where
  "stringify_AppState s = JObj
     [(''transactions'', JArr (map stringify_Transaction (transactions s))),
      (''clients'', JArr (map stringify_Client (clients s))),
      (''opportunities'', JArr (map stringify_Opportunity (opportunities s)))]"

definition stringify_Snapshot :: "Snapshot \<Rightarrow> json" where
  "stringify_Snapshot s = JObj
     [(''id'', JStr (snap_id s)), (''name'', JStr (snap_name s)),
      (''timestamp'', JNum (of_nat (snap_timestamp s))),
      (''data'', stringify_AppState (snap_data s))]"

section \<open>The application object and its storage\<close>

text \<open>
  \<^verbatim>\<open>localStorage\<close>: a key/value store whose \<^verbatim>\<open>setItem\<close> may throw (quota exceeded,
  storage disabled). Which writes the browser accepts is a parameter of the store.
\<close>

record Storage =
  items :: "string \<Rightarrow> json option"
  accepts :: "string \<Rightarrow> json \<Rightarrow> bool"

definition setItem :: "Storage \<Rightarrow> string \<Rightarrow> json \<Rightarrow> Storage option" where
  "setItem st k v = (if accepts st k v then Some (st\<lparr>items := (items st)(k \<mapsto> v)\<rparr>) else None)"

record GestorApp =
  state :: AppState
  snapshots :: "Snapshot list"
  activeScreen :: string
  editingTransactionId :: "string option"
  localStorage :: Storage

definition getInitialState :: AppState where
  "getInitialState = \<lparr>transactions = [], clients = [], opportunities = []\<rparr>"

text \<open>\<^verbatim>\<open>saveState\<close>, \<^verbatim>\<open>saveSnapshots\<close>: a failed write is caught and logged, nothing else changes.\<close>

definition saveState :: "GestorApp \<Rightarrow> GestorApp" where
  "saveState app =
     (case setItem (localStorage app) ''gestor_app_state'' (stringify_AppState (state app)) of
        Some st \<Rightarrow> app\<lparr>localStorage := st\<rparr>
      | None \<Rightarrow> app)"

definition saveSnapshots :: "GestorApp \<Rightarrow> GestorApp" where
  "saveSnapshots app =
     (case setItem (localStorage app) ''gestor_app_snapshots''
             (JArr (map stringify_Snapshot (snapshots app))) of
        Some st \<Rightarrow> app\<lparr>localStorage := st\<rparr>
      | None \<Rightarrow> app)"

text \<open>\<^verbatim>\<open>navigateTo\<close>: only the screen identifier is part of the model; rendering is view code.\<close>

definition navigateTo :: "string \<Rightarrow> GestorApp \<Rightarrow> GestorApp" where
  "navigateTo screen app = app\<lparr>activeScreen := screen\<rparr>"

definition setState :: "(AppState \<Rightarrow> AppState) \<Rightarrow> GestorApp \<Rightarrow> GestorApp" where
  "setState updater app =
     (let app1 = app\<lparr>state := updater (state app)\<rparr>;
          app2 = saveState app1
      in navigateTo (activeScreen app2) app2)"

text \<open>A sequence of \<^verbatim>\<open>setState\<close> calls, first updater first.\<close>

fun setStates :: "(AppState \<Rightarrow> AppState) list \<Rightarrow> GestorApp \<Rightarrow> GestorApp" where
  "setStates [] app = app"
| "setStates (u # us) app = setStates us (setState u app)"

text \<open>The updaters applied in order to a bare state.\<close>

fun apply_in_order :: "(AppState \<Rightarrow> AppState) list \<Rightarrow> AppState \<Rightarrow> AppState" where
  "apply_in_order [] s = s"
| "apply_in_order (u # us) s = apply_in_order us (u s)"

section \<open>Derived-view calculator\<close>







text \<open>The sum of a list of JavaScript numbers: they are added one by one to 0 in the
  order of the list, and every addition rounds.\<close>

definition sum_in_order :: "number list \<Rightarrow> double" where
  "sum_in_order xs = foldl (\<lambda>acc x. js_plus acc (round_double x)) (Finite 0) xs"


text \<open>An application object with no data, and storage that accepts every write.\<close>

definition empty_storage :: Storage where
  "empty_storage = \<lparr>items = (\<lambda>k. None), accepts = (\<lambda>k v. True)\<rparr>"

definition fresh_app :: GestorApp where
  "fresh_app = \<lparr>state = getInitialState, snapshots = [], activeScreen = ''painel'',
     editingTransactionId = None, localStorage = empty_storage\<rparr>"

definition example_tx :: Transaction where
  "example_tx = \<lparr>tx_id = ''t1'', tx_description = ''t1'', tx_amount = - 50,
     tx_date = ''2024-05-10'', tx_type = Despesa\<rparr>"

definition example_app :: GestorApp where
  "example_app = fresh_app\<lparr>state := getInitialState\<lparr>transactions := [example_tx]\<rparr>\<rparr>"

section \<open>Handlers\<close>

text \<open>
  A handler takes the application object and returns it updated, together with what the
  user gets to see:
  \<^item> \<open>Done\<close>: the handler carried out its action;
  \<^item> \<open>NoOp\<close>: the handler returned without acting and without a message (a
    confirmation that was cancelled, no file selected, or a bare \<^verbatim>\<open>return\<close>);
  \<^item> \<open>Failed e\<close>: the handler showed an error alert and returned without acting, or an
    exception ended it.

  The alert texts of the source are listed by name. The errors carry the names of the
  specification's taxonomy:
  \<^item> \<open>ValidationError\<close>: an alert about a missing input or an unusable backup file;
  \<^item> \<open>ReferentialIntegrityError\<close>: the alert of \<^verbatim>\<open>handleDeleteClient\<close>;
  \<^item> \<open>NotFoundError\<close>: the error the specification names for an unknown snapshot id;
    no handler of the source shows or raises it;
  \<^item> \<open>UncaughtException\<close>: an exception no handler catches, which ends the event
    handler where it stands.
\<close>

datatype alert =
    PreenchaTodosOsCampos
  | ClienteComOportunidades
  | InsiraNomeSnapshot
  | ArquivoDeBackupInvalido
  | ErroAoLerArquivoDeBackup

datatype error =
    ValidationError alert
  | ReferentialIntegrityError alert
  | NotFoundError
  | UncaughtException

datatype outcome = Done | NoOp | Failed error

text \<open>The two buttons of \<^verbatim>\<open>showConfirmationModal\<close>; closing the modal counts as
  \<open>Cancelar\<close>. The callback runs only on \<open>Confirmar\<close>.\<close>

datatype answer = Confirmar | Cancelar

subsection \<open>Text helpers\<close>

text \<open>A non-negative integer in a template literal: its decimal digits.\<close>

definition digit_char :: "nat \<Rightarrow> char" where
  "digit_char d = ''0123456789'' ! d"

fun decimal :: "nat \<Rightarrow> string" where
  "decimal n = (if n < 10 then [digit_char n] else decimal (n div 10) @ [digit_char (n mod 10)])"

declare decimal.simps [simp del]

text \<open>
  \<^verbatim>\<open>String.prototype.trim\<close> removes the white space and the line terminators of
  ECMAScript from both ends of a string: the code points U+0009 to U+000D, U+0020, U+00A0,
  U+1680, U+2000 to U+200A, U+2028, U+2029, U+202F, U+205F, U+3000 and U+FEFF, listed
  here by their UTF-8 encodings.
\<close>

definition white_space :: "string list" where
  "white_space =
     [[CHR 0x09], [CHR 0x0A], [CHR 0x0B], [CHR 0x0C], [CHR 0x0D], [CHR 0x20],
      [CHR 0xC2, CHR 0xA0],
      [CHR 0xE1, CHR 0x9A, CHR 0x80],
      [CHR 0xE2, CHR 0x80, CHR 0x80], [CHR 0xE2, CHR 0x80, CHR 0x81],
      [CHR 0xE2, CHR 0x80, CHR 0x82], [CHR 0xE2, CHR 0x80, CHR 0x83],
      [CHR 0xE2, CHR 0x80, CHR 0x84], [CHR 0xE2, CHR 0x80, CHR 0x85],
      [CHR 0xE2, CHR 0x80, CHR 0x86], [CHR 0xE2, CHR 0x80, CHR 0x87],
      [CHR 0xE2, CHR 0x80, CHR 0x88], [CHR 0xE2, CHR 0x80, CHR 0x89],
      [CHR 0xE2, CHR 0x80, CHR 0x8A],
      [CHR 0xE2, CHR 0x80, CHR 0xA8], [CHR 0xE2, CHR 0x80, CHR 0xA9],
      [CHR 0xE2, CHR 0x80, CHR 0xAF],
      [CHR 0xE2, CHR 0x81, CHR 0x9F],
      [CHR 0xE3, CHR 0x80, CHR 0x80],
      [CHR 0xEF, CHR 0xBB, CHR 0xBF]]"

function trimStart :: "string \<Rightarrow> string" where
  "trimStart s =
     (case find (\<lambda>w. prefix w s) white_space of
        None \<Rightarrow> s
      | Some w \<Rightarrow> trimStart (drop (length w) s))"
  by pat_completeness auto
termination
proof (relation "measure length")
  show "wf (measure length)" by simp
next
  fix s w :: string
  assume "find (\<lambda>w. prefix w s) white_space = Some w"
  then have "w \<in> set white_space" and "prefix w s"
    by (auto simp: find_Some_iff)
  moreover have "\<forall>w\<in>set white_space. w \<noteq> []"
    by (simp add: white_space_def)
  ultimately have "w \<noteq> []" and "length w \<le> length s"
    by (simp_all add: prefix_length_le)
  then show "(drop (length w) s, s) \<in> measure length"
    by (cases w) auto
qed

function trimEnd :: "string \<Rightarrow> string" where
  "trimEnd s =
     (case find (\<lambda>w. suffix w s) white_space of
        None \<Rightarrow> s
      | Some w \<Rightarrow> trimEnd (take (length s - length w) s))"
  by pat_completeness auto
termination
proof (relation "measure length")
  show "wf (measure length)" by simp
next
  fix s w :: string
  assume "find (\<lambda>w. suffix w s) white_space = Some w"
  then have "w \<in> set white_space" and "suffix w s"
    by (auto simp: find_Some_iff)
  moreover have "\<forall>w\<in>set white_space. w \<noteq> []"
    by (simp add: white_space_def)
  ultimately have "w \<noteq> []" and "length w \<le> length s"
    by (simp_all add: suffix_length_le)
  then show "(take (length s - length w) s, s) \<in> measure length"
    by (cases w) auto
qed

declare trimStart.simps [simp del] trimEnd.simps [simp del]

definition trim :: "string \<Rightarrow> string" where
  "trim s = trimEnd (trimStart s)"

subsection \<open>Reading a parsed document at a declared type\<close>

text \<open>
  \<^verbatim>\<open>JSON.parse\<close> returns \<^verbatim>\<open>any\<close> and TypeScript checks nothing when the result is
  assigned to a field of type \<^verbatim>\<open>AppState\<close>. The functions \<open>as_T\<close> read a tree at the
  interface \<open>T\<close>: an object with exactly the declared members, each of the declared
  type. \<open>None\<close> means that the value is not of that shape, and the model, whose states
  are typed, has nothing to say about it.
\<close>

definition has_exactly :: "(string \<times> json) list \<Rightarrow> string list \<Rightarrow> bool" where
  "has_exactly kvs ks = (distinct (map fst kvs) \<and> set (map fst kvs) = set ks)"

fun as_string :: "json option \<Rightarrow> string option" where
  "as_string (Some (JStr s)) = Some s"
| "as_string _ = None"

fun as_number :: "json option \<Rightarrow> number option" where
  "as_number (Some (JNum n)) = Some n"
| "as_number _ = None"

fun as_array :: "json option \<Rightarrow> json list option" where
  "as_array (Some (JArr xs)) = Some xs"
| "as_array _ = None"

definition as_type :: "string \<Rightarrow> TransactionType option" where
  "as_type s = (if s = ''receita'' then Some Receita
                else if s = ''despesa'' then Some Despesa else None)"

definition as_stage :: "string \<Rightarrow> OpportunityStage option" where
  "as_stage s = (if s = stage_name Lead then Some Lead
                 else if s = stage_name Proposta then Some Proposta
                 else if s = stage_name Negociacao then Some Negociacao
                 else if s = stage_name Ganho then Some Ganho
                 else if s = stage_name Perdido then Some Perdido else None)"

fun as_Transaction :: "json \<Rightarrow> Transaction option" where
  "as_Transaction (JObj kvs) =
     (if has_exactly kvs [''id'', ''description'', ''amount'', ''date'', ''type''] then
        do {
          i \<leftarrow> as_string (map_of kvs ''id'');
          d \<leftarrow> as_string (map_of kvs ''description'');
          a \<leftarrow> as_number (map_of kvs ''amount'');
          dt \<leftarrow> as_string (map_of kvs ''date'');
          tn \<leftarrow> as_string (map_of kvs ''type'');
          ty \<leftarrow> as_type tn;
          Some \<lparr>tx_id = i, tx_description = d, tx_amount = a, tx_date = dt, tx_type = ty\<rparr>
        }
      else None)"
| "as_Transaction _ = None"

fun as_Client :: "json \<Rightarrow> Client option" where
  "as_Client (JObj kvs) =
     (if has_exactly kvs [''id'', ''name'', ''company'', ''email'', ''phone''] then
        do {
          i \<leftarrow> as_string (map_of kvs ''id'');
          n \<leftarrow> as_string (map_of kvs ''name'');
          c \<leftarrow> as_string (map_of kvs ''company'');
          e \<leftarrow> as_string (map_of kvs ''email'');
          p \<leftarrow> as_string (map_of kvs ''phone'');
          Some \<lparr>cl_id = i, cl_name = n, cl_company = c, cl_email = e, cl_phone = p\<rparr>
        }
      else None)"
| "as_Client _ = None"

fun as_Opportunity :: "json \<Rightarrow> Opportunity option" where
  "as_Opportunity (JObj kvs) =
     (if has_exactly kvs [''id'', ''title'', ''value'', ''clientId'', ''stage''] then
        do {
          i \<leftarrow> as_string (map_of kvs ''id'');
          t \<leftarrow> as_string (map_of kvs ''title'');
          v \<leftarrow> as_number (map_of kvs ''value'');
          c \<leftarrow> as_string (map_of kvs ''clientId'');
          sn \<leftarrow> as_string (map_of kvs ''stage'');
          sg \<leftarrow> as_stage sn;
          Some \<lparr>op_id = i, op_title = t, op_value = v, op_clientId = c, op_stage = sg\<rparr>
        }
      else None)"
| "as_Opportunity _ = None"

fun as_AppState :: "json \<Rightarrow> AppState option" where
  "as_AppState (JObj kvs) =
     (if has_exactly kvs [''transactions'', ''clients'', ''opportunities''] then
        do {
          ts \<leftarrow> as_array (map_of kvs ''transactions'');
          cs \<leftarrow> as_array (map_of kvs ''clients'');
          os \<leftarrow> as_array (map_of kvs ''opportunities'');
          ts' \<leftarrow> those (map as_Transaction ts);
          cs' \<leftarrow> those (map as_Client cs);
          os' \<leftarrow> those (map as_Opportunity os);
          Some \<lparr>transactions = ts', clients = cs', opportunities = os'\<rparr>
        }
      else None)"
| "as_AppState _ = None"

text \<open>\<^verbatim>\<open>JSON.parse(JSON.stringify(s))\<close> for a state \<open>s\<close>: the copy, read at \<^verbatim>\<open>AppState\<close>.\<close>

definition deepCopy :: "AppState \<Rightarrow> AppState option" where
  "deepCopy s = as_AppState (stringify_AppState s)"

subsection \<open>Clients\<close>

definition handleDeleteClient :: "string \<Rightarrow> answer \<Rightarrow> GestorApp \<Rightarrow> outcome \<times> GestorApp" where
  "handleDeleteClient cid ans app =
     (let clientOpportunities = filter (\<lambda>p. op_clientId p = cid) (opportunities (state app))
      in if length clientOpportunities > 0
         then (Failed (ReferentialIntegrityError ClienteComOportunidades), app)
         else (case ans of
                 Cancelar \<Rightarrow> (NoOp, app)
               | Confirmar \<Rightarrow>
                   (Done, setState (\<lambda>prev. prev\<lparr>clients := filter (\<lambda>c. cl_id c \<noteq> cid) (clients prev)\<rparr>) app)))"

subsection \<open>Snapshots\<close>

text \<open>\<^verbatim>\<open>Date.now()\<close> is read twice by \<^verbatim>\<open>handleCreateSnapshot\<close>, once for the id and once
  for the timestamp; the two readings are inputs.\<close>

definition handleCreateSnapshot :: "string \<Rightarrow> nat \<Rightarrow> nat \<Rightarrow> GestorApp \<Rightarrow> outcome \<times> GestorApp" where
  "handleCreateSnapshot nameInput now_id now_ts app =
     (let name = trim nameInput
      in if name = [] then (Failed (ValidationError InsiraNomeSnapshot), app)
         else (case deepCopy (state app) of
                 None \<Rightarrow> (Failed UncaughtException, app)
               | Some copy \<Rightarrow>
                   (let newSnapshot = \<lparr>snap_id = ''snap_'' @ decimal now_id, snap_name = name,
                          snap_timestamp = now_ts, snap_data = copy\<rparr>
                    in (Done, saveSnapshots (app\<lparr>snapshots := snapshots app @ [newSnapshot]\<rparr>)))))"

text \<open>\<^verbatim>\<open>handleRestoreSnapshot\<close>, \<^verbatim>\<open>handleDeleteSnapshot\<close>: where \<^verbatim>\<open>find\<close> gives
  \<^verbatim>\<open>undefined\<close> the handler returns at once (\<^verbatim>\<open>if (!snapshot) return;\<close>).\<close>

definition handleRestoreSnapshot :: "string \<Rightarrow> answer \<Rightarrow> GestorApp \<Rightarrow> outcome \<times> GestorApp" where
  "handleRestoreSnapshot sid ans app =
     (case find (\<lambda>s. snap_id s = sid) (snapshots app) of
        None \<Rightarrow> (NoOp, app)
      | Some snapshot \<Rightarrow>
          (case ans of
             Cancelar \<Rightarrow> (NoOp, app)
           | Confirmar \<Rightarrow>
               (case deepCopy (snap_data snapshot) of
                  None \<Rightarrow> (Failed UncaughtException, app)
                | Some copy \<Rightarrow> (Done, navigateTo ''painel'' (saveState (app\<lparr>state := copy\<rparr>))))))"

definition handleDeleteSnapshot :: "string \<Rightarrow> answer \<Rightarrow> GestorApp \<Rightarrow> outcome \<times> GestorApp" where
  "handleDeleteSnapshot sid ans app =
     (case find (\<lambda>s. snap_id s = sid) (snapshots app) of
        None \<Rightarrow> (NoOp, app)
      | Some snapshot \<Rightarrow>
          (case ans of
             Cancelar \<Rightarrow> (NoOp, app)
           | Confirmar \<Rightarrow>
               (Done, saveSnapshots (app\<lparr>snapshots := filter (\<lambda>s. snap_id s \<noteq> sid) (snapshots app)\<rparr>))))"

subsection \<open>Wiping all data\<close>

text \<open>The confirm button of \<^verbatim>\<open>showWipeDataConfirmation\<close> is disabled unless the text field
  holds \<^verbatim>\<open>ZERAR\<close>; the argument is the content of the field when the button is pressed.\<close>

definition showWipeDataConfirmation :: "string \<Rightarrow> GestorApp \<Rightarrow> outcome \<times> GestorApp" where
  "showWipeDataConfirmation input app =
     (if input \<noteq> ''ZERAR'' then (NoOp, app)
      else (let app1 = saveState (app\<lparr>state := getInitialState\<rparr>);
                app2 = saveSnapshots (app1\<lparr>snapshots := []\<rparr>)
            in (Done, navigateTo ''painel'' app2)))"

subsection \<open>Transactions\<close>

record TransactionForm =
  f_description :: string
  f_amountStr :: string
  f_type :: TransactionType
  f_date :: string

text \<open>
  \<^verbatim>\<open>handleTransactionFormSubmit\<close>. \<^verbatim>\<open>parseFloat\<close> is a parameter; \<^verbatim>\<open>Date.now()\<close> is the
  input \<open>now\<close>. The id under edit is tested for truthiness, so the empty id counts as none.
\<close>

definition handleTransactionFormSubmit ::
    "(string \<Rightarrow> number) \<Rightarrow> TransactionForm \<Rightarrow> nat \<Rightarrow> GestorApp \<Rightarrow> outcome \<times> GestorApp" where
  "handleTransactionFormSubmit parseFloat form now app =
     (if f_description form = [] \<or> f_amountStr form = [] \<or> f_date form = []
      then (Failed (ValidationError PreenchaTodosOsCampos), app)
      else
        (let amount = parseFloat (f_amountStr form);
             signedAmount = (if f_type form = Receita then amount else - amount);
             editing = (case editingTransactionId app of
                          None \<Rightarrow> None
                        | Some e \<Rightarrow> if e \<noteq> [] then Some e else None)
         in case editing of
              Some eid \<Rightarrow>
                (Done, (setState (\<lambda>prev. prev\<lparr>transactions :=
                          map (\<lambda>tx. if tx_id tx = eid
                                    then tx\<lparr>tx_description := f_description form,
                                            tx_amount := signedAmount,
                                            tx_date := f_date form,
                                            tx_type := f_type form\<rparr>
                                    else tx)
                              (transactions prev)\<rparr>) app)\<lparr>editingTransactionId := None\<rparr>)
            | None \<Rightarrow>
                (let newTransaction = \<lparr>tx_id = ''tx_'' @ decimal now,
                        tx_description = f_description form, tx_amount = signedAmount,
                        tx_date = f_date form, tx_type = f_type form\<rparr>
                 in (Done, setState (\<lambda>prev. prev\<lparr>transactions :=
                             transactions prev @ [newTransaction]\<rparr>) app))))"

text \<open>The invariant of the interface comment: positive for revenue, negative for expense.\<close>

definition sign_agrees :: "Transaction \<Rightarrow> bool" where
  "sign_agrees t = (case tx_type t of Receita \<Rightarrow> 0 \<le> tx_amount t | Despesa \<Rightarrow> tx_amount t \<le> 0)"

text \<open>
  \<^verbatim>\<open>parseFloat\<close>: white space at the front is skipped, then the longest prefix that is
  a decimal literal is read (an optional sign; digits with an optional fraction, or a
  fraction alone; an exponent part where it is complete) and its value is rounded to
  binary64. What follows the literal is ignored. The result has the type of the finite
  numbers: where the builtin returns \<^verbatim>\<open>NaN\<close> (no literal at the front) or an infinity
  (the literal \<^verbatim>\<open>Infinity\<close>, a value that rounds to one), the result here is 0. A number
  field hands over no such string: its value is empty or a valid floating-point number
  with a finite value, and the handler rejects the empty one.
\<close>

definition is_digit :: "char \<Rightarrow> bool" where
  "is_digit c = (c \<in> set ''0123456789'')"

definition digit_value :: "char \<Rightarrow> int" where
  "digit_value c = of_char c - 48"

definition digits_value :: "string \<Rightarrow> int" where
  "digits_value ds = foldl (\<lambda>acc c. 10 * acc + digit_value c) 0 ds"

definition pow10 :: "int \<Rightarrow> rat" where
  "pow10 e = (if 0 \<le> e then 10 ^ nat e else 1 / 10 ^ nat (- e))"

text \<open>The exponent that a complete exponent part at the front of a string denotes; 0
  where there is none.\<close>

definition exponent_part :: "string \<Rightarrow> int" where
  "exponent_part s =
     (case s of
        c # r \<Rightarrow>
          if c = CHR ''e'' \<or> c = CHR ''E'' then
            (case r of
               d # r' \<Rightarrow>
                 if d = CHR ''-'' then - digits_value (takeWhile is_digit r')
                 else if d = CHR ''+'' then digits_value (takeWhile is_digit r')
                 else digits_value (takeWhile is_digit r)
             | [] \<Rightarrow> 0)
          else 0
      | [] \<Rightarrow> 0)"

text \<open>The exact value of the unsigned literal at the front of a string, if there is one.\<close>

definition parse_unsigned :: "string \<Rightarrow> rat option" where
  "parse_unsigned s =
     (let ip = takeWhile is_digit s;
          rest = dropWhile is_digit s;
          fp = (case rest of c # r \<Rightarrow> if c = CHR ''.'' then takeWhile is_digit r else [] | [] \<Rightarrow> []);
          rest' = (case rest of c # r \<Rightarrow> if c = CHR ''.'' then dropWhile is_digit r else rest | [] \<Rightarrow> [])
      in if ip = [] \<and> fp = [] then None
         else Some ((of_int (digits_value ip) + of_int (digits_value fp) / 10 ^ length fp)
                      * pow10 (exponent_part rest')))"

definition parse_signed :: "string \<Rightarrow> rat option" where
  "parse_signed s =
     (case s of
        c # r \<Rightarrow> if c = CHR ''-'' then map_option uminus (parse_unsigned r)
                 else if c = CHR ''+'' then parse_unsigned r
                 else parse_unsigned s
      | [] \<Rightarrow> None)"

definition parseFloat_decimal :: "string \<Rightarrow> number" where
  "parseFloat_decimal s =
     (case parse_signed (trimStart s) of
        Some v \<Rightarrow> (case round_double v of Finite x \<Rightarrow> x | _ \<Rightarrow> 0)
      | None \<Rightarrow> 0)"

subsection \<open>Backup\<close>

text \<open>\<^verbatim>\<open>saveBackup\<close>: the content of the downloaded file.\<close>

definition saveBackup :: "GestorApp \<Rightarrow> json" where
  "saveBackup app = stringify_AppState (state app)"

text \<open>
  The operator \<^verbatim>\<open>in\<close>: own members of an object, indices and \<^verbatim>\<open>length\<close> of an array,
  \<^verbatim>\<open>TypeError\<close> (\<open>None\<close>) on a primitive value. Members inherited from the prototypes
  are left out; none of them has one of the three names \<^verbatim>\<open>loadBackup\<close> asks for.
\<close>

fun js_in :: "string \<Rightarrow> json \<Rightarrow> bool option" where
  "js_in k (JObj kvs) = Some (k \<in> set (map fst kvs))"
| "js_in k (JArr xs) = Some (k = ''length'' \<or> k \<in> set (map decimal [0..<length xs]))"
| "js_in k _ = None"

text \<open>\<^verbatim>\<open>a && b\<close> where either side may throw: the right side is evaluated only when
  the left one is true.\<close>

definition js_and :: "bool option \<Rightarrow> bool option \<Rightarrow> bool option" where
  "js_and a b = (case a of None \<Rightarrow> None | Some False \<Rightarrow> Some False | Some True \<Rightarrow> b)"

text \<open>
  \<^verbatim>\<open>loadBackup\<close>. The argument is the selected file, if any, and its text as
  \<^verbatim>\<open>JSON.parse\<close> sees it (\<open>None\<close>: a syntax error). The result \<open>None\<close> stands for a
  confirmed import of a document with the three keys that is not of the shape of
  \<^verbatim>\<open>AppState\<close>: the source installs it, and the typed model ends there.
\<close>

definition loadBackup ::
    "json option option \<Rightarrow> answer \<Rightarrow> GestorApp \<Rightarrow> (outcome \<times> GestorApp) option" where
  "loadBackup file ans app =
     (case file of
        None \<Rightarrow> Some (NoOp, app)
      | Some contents \<Rightarrow>
          (case contents of
             None \<Rightarrow> Some (Failed (ValidationError ErroAoLerArquivoDeBackup), app)
           | Some newState \<Rightarrow>
               (case js_and (js_in ''transactions'' newState)
                       (js_and (js_in ''clients'' newState) (js_in ''opportunities'' newState)) of
                  None \<Rightarrow> Some (Failed (ValidationError ErroAoLerArquivoDeBackup), app)
                | Some False \<Rightarrow> Some (Failed (ValidationError ArquivoDeBackupInvalido), app)
                | Some True \<Rightarrow>
                    (case ans of
                       Cancelar \<Rightarrow> Some (NoOp, app)
                     | Confirmar \<Rightarrow>
                         (case as_AppState newState of
                            None \<Rightarrow> None
                          | Some st \<Rightarrow>
                              Some (Done, navigateTo ''painel'' (saveState (app\<lparr>state := st\<rparr>))))))))"

text \<open>The top-level keys of a document; a document that is not an object has none.\<close>

fun top_level_keys :: "json \<Rightarrow> string set" where
  "top_level_keys (JObj kvs) = set (map fst kvs)"
| "top_level_keys _ = {}"

subsection \<open>Sample data\<close>

definition example_client :: Client where
  "example_client = \<lparr>cl_id = ''cl_1'', cl_name = ''Ana'', cl_company = ''ACME'',
     cl_email = ''ana@acme.test'', cl_phone = ''555''\<rparr>"

definition other_client :: Client where
  "other_client = \<lparr>cl_id = ''cl_2'', cl_name = ''Rui'', cl_company = ''Beta'',
     cl_email = ''rui@beta.test'', cl_phone = ''556''\<rparr>"

definition example_opportunity :: Opportunity where
  "example_opportunity = \<lparr>op_id = ''op_1'', op_title = ''Site'', op_value = 1000,
     op_clientId = ''cl_2'', op_stage = Lead\<rparr>"

text \<open>A second client record under the id of the first, as two creations in one
  millisecond (\<^verbatim>\<open>cl_${Date.now()}\<close>) or an imported backup leave it.\<close>

definition twin_client :: Client where
  "twin_client = \<lparr>cl_id = ''cl_1'', cl_name = ''Bia'', cl_company = ''Gama'',
     cl_email = ''bia@gama.test'', cl_phone = ''557''\<rparr>"

definition sales_app :: GestorApp where
  "sales_app = fresh_app\<lparr>state := \<lparr>transactions = [example_tx],
     clients = [example_client, other_client], opportunities = [example_opportunity]\<rparr>\<rparr>"

definition twin_app :: GestorApp where
  "twin_app = fresh_app\<lparr>state := \<lparr>transactions = [example_tx],
     clients = [example_client, twin_client, other_client],
     opportunities = [example_opportunity]\<rparr>\<rparr>"

text \<open>A session of snapshot creations: name typed, clock reading for the id, clock
  reading for the timestamp, one triple for each press of the button.\<close>

fun createSnapshots :: "(string \<times> nat \<times> nat) list \<Rightarrow> GestorApp \<Rightarrow> GestorApp" where
  "createSnapshots [] app = app"
| "createSnapshots ((nameInput, now_id, now_ts) # rs) app =
     createSnapshots rs (snd (handleCreateSnapshot nameInput now_id now_ts app))"

definition sample_snapshot :: Snapshot where
  "sample_snapshot = \<lparr>snap_id = ''snap_1000'', snap_name = ''Q1'', snap_timestamp = 1000,
     snap_data = state example_app\<rparr>"

definition archive_app :: GestorApp where
  "archive_app = sales_app\<lparr>snapshots := [sample_snapshot]\<rparr>"

text \<open>Storage that rejects every write, as a full or disabled \<^verbatim>\<open>localStorage\<close> does.\<close>

definition full_storage :: Storage where
  "full_storage = \<lparr>items = (\<lambda>k. None), accepts = (\<lambda>k v. False)\<rparr>"

definition blocked_app :: GestorApp where
  "blocked_app = archive_app\<lparr>localStorage := full_storage\<rparr>"

definition negative_expense_form :: TransactionForm where
  "negative_expense_form = \<lparr>f_description = ''Luz'', f_amountStr = ''-50'', f_type = Despesa,
     f_date = ''2024-05-10''\<rparr>"

section \<open>Objects in a store: deep copies and aliasing\<close>

text \<open>
  Whether two JavaScript values share an object cannot be said of the values of the
  sections above, so the snapshot handlers are modelled a second time over an explicit
  store. A store is a list of objects, the address of an object is its index, and
  allocation appends. A value is a primitive or a reference to an object of the store;
  an object is an array of values or a list of named members.
\<close>

datatype jsval = VNull | VBool bool | VNum number | VStr string | VRef nat

datatype jsobj = OArr "jsval list" | OObj "(string \<times> jsval) list"

type_synonym heap = "jsobj list"

fun children :: "jsobj \<Rightarrow> jsval list" where
  "children (OArr vs) = vs"
| "children (OObj kvs) = map snd kvs"

text \<open>
  \<^verbatim>\<open>JSON.stringify\<close> walks the object graph from a value and yields the document. It
  keeps the stack of the objects it is inside of and throws a \<^verbatim>\<open>TypeError\<close> (\<open>None\<close>)
  when it meets one of them again; a reference outside the store has no document either.
\<close>

function stringify_at :: "nat list \<Rightarrow> heap \<Rightarrow> jsval \<Rightarrow> json option" where
  "stringify_at stk h VNull = Some JNull"
| "stringify_at stk h (VBool b) = Some (JBool b)"
| "stringify_at stk h (VNum n) = Some (JNum n)"
| "stringify_at stk h (VStr s) = Some (JStr s)"
| "stringify_at stk h (VRef a) =
     (if a \<in> set stk \<or> length h \<le> a then None
      else (case h ! a of
              OArr vs \<Rightarrow> map_option JArr (those (map (stringify_at (a # stk) h) vs))
            | OObj kvs \<Rightarrow>
                map_option JObj
                  (those (map (\<lambda>(k, v). map_option (Pair k) (stringify_at (a # stk) h v)) kvs))))"
  by pat_completeness auto
termination
proof (relation "measure (\<lambda>(stk, h, v). length h - card (set stk \<inter> {..<length h}))")
  show "wf (measure (\<lambda>(stk, h, v). length h - card (set stk \<inter> {..<length h})))"
    by simp
next
  have step: "\<And>a stk (h :: heap). \<not> (a \<in> set stk \<or> length h \<le> a) \<Longrightarrow>
      length h - card (set (a # stk) \<inter> {..<length h}) < length h - card (set stk \<inter> {..<length h})"
  proof -
    fix a stk and h :: heap
    assume "\<not> (a \<in> set stk \<or> length h \<le> a)"
    then have a: "a \<notin> set stk" "a < length h" by simp_all
    let ?S = "set stk \<inter> {..<length h}"
    have ins: "set (a # stk) \<inter> {..<length h} = insert a ?S" using a by auto
    have fin: "finite ?S" by simp
    have "a \<notin> ?S" using a by simp
    then have c: "card (insert a ?S) = Suc (card ?S)" using fin by simp
    have "insert a ?S \<subseteq> {..<length h}" using a by auto
    then have "card (insert a ?S) \<le> card {..<length h}" by (intro card_mono) simp_all
    then have "Suc (card ?S) \<le> length h" using c by simp
    then show "length h - card (set (a # stk) \<inter> {..<length h}) < length h - card ?S"
      unfolding ins c by simp
  qed
  {
    fix stk :: "nat list" and h :: heap and a vs v
    assume "\<not> (a \<in> set stk \<or> length h \<le> a)"
    then show "((a # stk, h, v), (stk, h, VRef a))
        \<in> measure (\<lambda>(stk, h, v). length h - card (set stk \<inter> {..<length h}))"
      using step [of a stk h] by simp
  }
  then show "\<And>stk h a x2 x xa y. \<not> (a \<in> set stk \<or> length h \<le> a) \<Longrightarrow>
       h ! a = OObj x2 \<Longrightarrow> x \<in> set x2 \<Longrightarrow> (xa, y) = x \<Longrightarrow>
       ((a # stk, h, y), stk, h, VRef a)
          \<in> measure (\<lambda>(stk, h, v). length h - card (set stk \<inter> {..<length h}))"
    by blast
qed

text \<open>
  \<^verbatim>\<open>JSON.parse\<close> allocates a new object for every array and object of the document, the
  members first. The members are kept as the document lists them; a document written by
  \<^verbatim>\<open>JSON.stringify\<close> names no member twice.
\<close>

fun build :: "json \<Rightarrow> heap \<Rightarrow> jsval \<times> heap"
  and build_list :: "json list \<Rightarrow> heap \<Rightarrow> jsval list \<times> heap"
  and build_members :: "(string \<times> json) list \<Rightarrow> heap \<Rightarrow> (string \<times> jsval) list \<times> heap" where
  "build JNull h = (VNull, h)"
| "build (JBool b) h = (VBool b, h)"
| "build (JNum n) h = (VNum n, h)"
| "build (JStr s) h = (VStr s, h)"
| "build (JArr ts) h = (case build_list ts h of (vs, h1) \<Rightarrow> (VRef (length h1), h1 @ [OArr vs]))"
| "build (JObj kts) h = (case build_members kts h of (kvs, h1) \<Rightarrow> (VRef (length h1), h1 @ [OObj kvs]))"
| "build_list [] h = ([], h)"
| "build_list (t # ts) h =
     (case build t h of (v, h1) \<Rightarrow> (case build_list ts h1 of (vs, h2) \<Rightarrow> (v # vs, h2)))"
| "build_members [] h = ([], h)"
| "build_members ((k, t) # kts) h =
     (case build t h of (v, h1) \<Rightarrow> (case build_members kts h1 of (kvs, h2) \<Rightarrow> ((k, v) # kvs, h2)))"

text \<open>The addresses a value reaches: the object it refers to, and what the members of
  that object reach.\<close>

inductive reaches :: "heap \<Rightarrow> jsval \<Rightarrow> nat \<Rightarrow> bool" for h :: heap where
  here: "reaches h (VRef a) a"
| below: "a < length h \<Longrightarrow> c \<in> set (children (h ! a)) \<Longrightarrow> reaches h c b \<Longrightarrow> reaches h (VRef a) b"

definition reach :: "heap \<Rightarrow> jsval \<Rightarrow> nat set" where
  "reach h v = {a. reaches h v a}"

text \<open>The application object over a store: \<^verbatim>\<open>this.state\<close> and the \<^verbatim>\<open>data\<close> of each
  snapshot are values in the store. Persistence is left out here; it reads the store
  and changes none of its objects.\<close>

record StoredSnapshot =
  ss_id :: string
  ss_name :: string
  ss_timestamp :: nat
  ss_data :: jsval

record StoreApp =
  cells :: heap
  state_ref :: jsval
  snapshot_refs :: "StoredSnapshot list"

definition JSON_stringify :: "heap \<Rightarrow> jsval \<Rightarrow> json option" where
  "JSON_stringify h v = stringify_at [] h v"

text \<open>\<^verbatim>\<open>JSON.parse(JSON.stringify(v))\<close>.\<close>

definition deepCopy_store :: "heap \<Rightarrow> jsval \<Rightarrow> (jsval \<times> heap) option" where
  "deepCopy_store h v = (case JSON_stringify h v of None \<Rightarrow> None | Some t \<Rightarrow> Some (build t h))"

definition handleCreateSnapshot_store ::
    "string \<Rightarrow> nat \<Rightarrow> nat \<Rightarrow> StoreApp \<Rightarrow> outcome \<times> StoreApp" where
  "handleCreateSnapshot_store nameInput now_id now_ts app =
     (let name = trim nameInput
      in if name = [] then (Failed (ValidationError InsiraNomeSnapshot), app)
         else (case deepCopy_store (cells app) (state_ref app) of
                 None \<Rightarrow> (Failed UncaughtException, app)
               | Some (copy, h') \<Rightarrow>
                   (let newSnapshot = \<lparr>ss_id = ''snap_'' @ decimal now_id, ss_name = name,
                          ss_timestamp = now_ts, ss_data = copy\<rparr>
                    in (Done, app\<lparr>cells := h',
                                  snapshot_refs := snapshot_refs app @ [newSnapshot]\<rparr>))))"

definition handleRestoreSnapshot_store :: "string \<Rightarrow> answer \<Rightarrow> StoreApp \<Rightarrow> outcome \<times> StoreApp" where
  "handleRestoreSnapshot_store sid ans app =
     (case find (\<lambda>s. ss_id s = sid) (snapshot_refs app) of
        None \<Rightarrow> (NoOp, app)
      | Some snapshot \<Rightarrow>
          (case ans of
             Cancelar \<Rightarrow> (NoOp, app)
           | Confirmar \<Rightarrow>
               (case deepCopy_store (cells app) (ss_data snapshot) of
                  None \<Rightarrow> (Failed UncaughtException, app)
                | Some (copy, h') \<Rightarrow> (Done, app\<lparr>cells := h', state_ref := copy\<rparr>))))"

text \<open>
  An updater is a JavaScript function from the previous state to the next one. It may
  allocate objects and it may write to objects; it returns the next state and leaves the
  store changed.
\<close>

type_synonym updater = "heap \<Rightarrow> jsval \<Rightarrow> jsval \<times> heap"

definition setState_store :: "updater \<Rightarrow> StoreApp \<Rightarrow> StoreApp" where
  "setState_store u app =
     (case u (cells app) (state_ref app) of (next_ref, h') \<Rightarrow> app\<lparr>cells := h', state_ref := next_ref\<rparr>)"

text \<open>
  What happens between two presses of a snapshot button is a sequence of steps: a handler
  runs, allocates what it allocates, and calls \<^verbatim>\<open>setState\<close>. A step maps the application
  to the application it leaves.
\<close>

type_synonym step = "StoreApp \<Rightarrow> StoreApp"

fun run_steps :: "step list \<Rightarrow> StoreApp \<Rightarrow> StoreApp" where
  "run_steps [] app = app"
| "run_steps (f # fs) app = run_steps fs (f app)"

text \<open>
  A step spares the objects of a value \<open>d\<close> at an application when, run there, it frees
  no object, writes to no object of \<open>d\<close>, leaves a live state that reaches only objects
  of the store and none of \<open>d\<close>, and leaves the snapshot collection as it is. A run of
  steps spares them when each step does at the application it is run at.
\<close>

definition spares_at :: "jsval \<Rightarrow> step \<Rightarrow> StoreApp \<Rightarrow> bool" where
  "spares_at d f app =
     (length (cells app) \<le> length (cells (f app))
      \<and> (\<forall>a\<in>reach (cells app) d. cells (f app) ! a = cells app ! a)
      \<and> reach (cells (f app)) (state_ref (f app)) \<subseteq> {..<length (cells (f app))}
      \<and> reach (cells (f app)) (state_ref (f app)) \<inter> reach (cells app) d = {}
      \<and> snapshot_refs (f app) = snapshot_refs app)"

fun spared :: "jsval \<Rightarrow> step list \<Rightarrow> StoreApp \<Rightarrow> bool" where
  "spared d [] app = True"
| "spared d (f # fs) app = (spares_at d f app \<and> spared d fs (f app))"

text \<open>
  A step that spares the objects of \<open>d\<close> wherever it is run, on any store where the live
  state and \<open>d\<close> reach only objects of the store and none in common.
\<close>

definition spares :: "jsval \<Rightarrow> step \<Rightarrow> bool" where
  "spares d f = (\<forall>app.
     reach (cells app) (state_ref app) \<subseteq> {..<length (cells app)}
     \<and> reach (cells app) d \<subseteq> {..<length (cells app)}
     \<and> reach (cells app) d \<inter> reach (cells app) (state_ref app) = {}
     \<longrightarrow> spares_at d f app)"

text \<open>
  An updater is confined when, on a store in which its argument reaches only objects of
  the store, it changes no object but those its argument reaches, and what it returns
  reaches only such objects and objects it allocated. A \<^verbatim>\<open>setState\<close> call with a
  confined updater spares the objects of every value wherever it is run; an updater that
  changed \<^verbatim>\<open>prev\<close> in place would be confined as well.
\<close>

definition confined :: "updater \<Rightarrow> bool" where
  "confined u = (\<forall>h v. reach h v \<subseteq> {..<length h} \<longrightarrow>
     (case u h v of (v', h') \<Rightarrow>
        length h \<le> length h'
        \<and> (\<forall>a<length h. a \<notin> reach h v \<longrightarrow> h' ! a = h ! a)
        \<and> reach h' v' \<subseteq> reach h v \<union> {length h..<length h'}))"

text \<open>Two updaters: \<^verbatim>\<open>() => value\<close> for a value given as a document (as in
  \<^verbatim>\<open>setState(() => this.getInitialState())\<close>), and one that empties the object of the
  previous state in place and returns it.\<close>

definition replace_by :: "json \<Rightarrow> updater" where
  "replace_by t = (\<lambda>h prev. build t h)"

definition clear_in_place :: updater where
  "clear_in_place = (\<lambda>h prev. case prev of
       VRef a \<Rightarrow> if a < length h then (prev, h[a := OObj []]) else (prev, h)
     | _ \<Rightarrow> (prev, h))"

text \<open>The data \<open>d\<close> of a snapshot is intact in \<open>app\<close>: it reads as the tree \<open>t\<close>, and no
  object of it is an object of the live state.\<close>

definition intact :: "StoreApp \<Rightarrow> jsval \<Rightarrow> json \<Rightarrow> bool" where
  "intact app d t =
     (JSON_stringify (cells app) d = Some t
      \<and> reach (cells app) (state_ref app) \<subseteq> {..<length (cells app)}
      \<and> reach (cells app) d \<inter> reach (cells app) (state_ref app) = {})"

text \<open>The store of an application whose live state is the typed state \<open>s\<close>, built as
  \<^verbatim>\<open>JSON.parse\<close> builds it, with no snapshots yet.\<close>

definition store_app :: "AppState \<Rightarrow> StoreApp" where
  "store_app s = (case build (stringify_AppState s) [] of
                    (v, h) \<Rightarrow> \<lparr>cells = h, state_ref = v, snapshot_refs = []\<rparr>)"

text \<open>The code points of a string: the first byte of a UTF-8 sequence tells its length.\<close>

definition sequence_length :: "char \<Rightarrow> nat" where
  "sequence_length c =
     (if of_char c < (0x80 :: nat) then 1
      else if of_char c < (0xE0 :: nat) then 2
      else if of_char c < (0xF0 :: nat) then 3 else 4)"

function code_points :: "string \<Rightarrow> string list" where
  "code_points s =
     (if s = [] then []
      else take (sequence_length (hd s)) s # code_points (drop (sequence_length (hd s)) s))"
  by pat_completeness auto
termination
  by (relation "measure length") (auto simp: sequence_length_def)

declare code_points.simps [simp del]

text \<open>What the spread \<^verbatim>\<open>[...x]\<close> iterates over: the elements of an array, the code
  points of a string; any other value is not iterable (\<open>None\<close>: a \<^verbatim>\<open>TypeError\<close>).\<close>

definition iterate :: "heap \<Rightarrow> jsval \<Rightarrow> jsval list option" where
  "iterate h x = (case x of
       VStr s \<Rightarrow> Some (map VStr (code_points s))
     | VRef b \<Rightarrow> if b < length h then (case h ! b of OArr ts \<Rightarrow> Some ts | OObj kvs \<Rightarrow> None) else None
     | _ \<Rightarrow> None)"

text \<open>\<^verbatim>\<open>{...prev, k: v}\<close> on the members of \<^verbatim>\<open>prev\<close>: a member named \<open>k\<close> keeps its place
  and takes the new value, otherwise the member is added at the end.\<close>

definition put_member :: "string \<Rightarrow> jsval \<Rightarrow> (string \<times> jsval) list \<Rightarrow> (string \<times> jsval) list" where
  "put_member k v kvs =
     (if k \<in> set (map fst kvs) then map (\<lambda>kv. if fst kv = k then (k, v) else kv) kvs
      else kvs @ [(k, v)])"

text \<open>
  The creation path of \<^verbatim>\<open>handleTransactionFormSubmit\<close> over the store, with the fields
  read and the amount signed. The handler allocates the object of the new transaction
  (\<^verbatim>\<open>const newTransaction = { id, description, amount, date, type }\<close>) and then calls
  \<^verbatim>\<open>setState\<close> with an updater that has captured it,
  \<^verbatim>\<open>prev => ({ ...prev, transactions: [...prev.transactions, newTransaction] })\<close>. The
  updater allocates the object of the next state and then the array of its transactions.
  Where \<^verbatim>\<open>prev.transactions\<close> is missing or not iterable the updater throws, and
  \<^verbatim>\<open>setState\<close> leaves the state as it was. The handlers that create a client or an
  opportunity have the same form.
\<close>

definition object_of_Transaction :: "Transaction \<Rightarrow> jsobj" where
  "object_of_Transaction t = OObj
     [(''id'', VStr (tx_id t)), (''description'', VStr (tx_description t)),
      (''amount'', VNum (tx_amount t)), (''date'', VStr (tx_date t)),
      (''type'', VStr (type_name (tx_type t)))]"

definition append_captured :: "jsval \<Rightarrow> updater" where
  "append_captured newTransaction = (\<lambda>h prev.
     case prev of
       VRef a \<Rightarrow>
         (if a < length h then
            (case h ! a of
               OObj kvs \<Rightarrow>
                 (case Option.bind (map_of kvs ''transactions'') (iterate h) of
                    Some ts \<Rightarrow>
                      (VRef (length h),
                       h @ [OObj (put_member ''transactions'' (VRef (Suc (length h))) kvs),
                            OArr (ts @ [newTransaction])])
                  | None \<Rightarrow> (prev, h))
             | OArr vs \<Rightarrow> (prev, h))
          else (prev, h))
     | _ \<Rightarrow> (prev, h))"

definition handleTransactionFormSubmit_store :: "Transaction \<Rightarrow> step" where
  "handleTransactionFormSubmit_store tx app =
     (let newTransaction = VRef (length (cells app));
          h1 = cells app @ [object_of_Transaction tx]
      in setState_store (append_captured newTransaction) (app\<lparr>cells := h1\<rparr>))"

text \<open>A snapshot of the sample state, then a transaction created through the form, the
  state emptied in place and the state replaced, then the restore.\<close>

definition scenario_created :: StoreApp where
  "scenario_created = snd (handleCreateSnapshot_store ''Q1'' 1000 1000 (store_app (state sales_app)))"

definition scenario_steps :: "step list" where
  "scenario_steps = [handleTransactionFormSubmit_store example_tx, setState_store clear_in_place,
     setState_store (replace_by (stringify_AppState getInitialState))]"

definition scenario_updated :: StoreApp where
  "scenario_updated = run_steps scenario_steps scenario_created"

definition scenario_restored :: StoreApp where
  "scenario_restored =
     snd (handleRestoreSnapshot_store (''snap_'' @ decimal 1000) Confirmar scenario_updated)"

text \<open>Two snapshots taken in the same millisecond, the state replaced in between; then
  the restore button of the second one is pressed.\<close>

definition collision_before_second :: StoreApp where
  "collision_before_second =
     setState_store (replace_by (stringify_AppState (state sales_app)))
       (snd (handleCreateSnapshot_store ''A'' 1000 1000 (store_app getInitialState)))"

definition collision_restored :: StoreApp where
  "collision_restored =
     snd (handleRestoreSnapshot_store ''snap_1000'' Confirmar
       (snd (handleCreateSnapshot_store ''B'' 1000 1000 collision_before_second)))"

section \<open>Names\<close>

lemma trim_sample_names: "trim ''A'' = ''A''" "trim ''B'' = ''B''" "trim ''Q1'' = ''Q1''"
  by (simp_all add: trim_def trimStart.simps trimEnd.simps white_space_def suffix_to_prefix)

text \<open>A name that consists of a no-break space and a line separator is blank.\<close>

lemma trim_no_break_space: "trim [CHR 0xC2, CHR 0xA0, CHR 0xE2, CHR 0x80, CHR 0xA8] = []"
  by (simp add: trim_def trimStart.simps trimEnd.simps white_space_def suffix_to_prefix)

section \<open>Store: update discipline\<close>

lemma state_saveState [simp]: "state (saveState app) = state app"
  by (simp add: saveState_def split: option.splits)

lemma snapshots_saveState [simp]: "snapshots (saveState app) = snapshots app"
  by (simp add: saveState_def split: option.splits)

lemma state_saveSnapshots [simp]: "state (saveSnapshots app) = state app"
  by (simp add: saveSnapshots_def split: option.splits)

lemma snapshots_saveSnapshots [simp]: "snapshots (saveSnapshots app) = snapshots app"
  by (simp add: saveSnapshots_def split: option.splits)

lemma state_setState [simp]: "state (setState u app) = u (state app)"
  by (simp add: setState_def navigateTo_def Let_def)

lemma snapshots_setState [simp]: "snapshots (setState u app) = snapshots app"
  by (simp add: setState_def navigateTo_def Let_def)

text \<open>
  C1. After any finite sequence of \<^verbatim>\<open>setState\<close> calls the state held by the application
  is the result of applying the updaters, in order, to the initial state. An updater of
  the model is a function on values, so it cannot change its argument in place; whether
  or not the writes to storage are accepted makes no difference to the live state.
\<close>

theorem C1_setState_sequence:
  "state (setStates us app) = apply_in_order us (state app)"
  by (induction us arbitrary: app) simp_all

section \<open>Totals\<close>





text \<open>The doubles written \<^verbatim>\<open>0.1\<close> and \<^verbatim>\<open>0.2\<close> add up to the double written
  \<^verbatim>\<open>0.30000000000000004\<close>.\<close>

lemma sum_in_order_tenth_fifth:
  "round_double (1 / 10) = Finite (3602879701896397 / 36028797018963968)
   \<and> round_double (2 / 10) = Finite (3602879701896397 / 18014398509481984)
   \<and> sum_in_order [1 / 10, 2 / 10] = Finite (1351079888211149 / 4503599627370496)
   \<and> sum_in_order [3602879701896397 / 36028797018963968, 3602879701896397 / 18014398509481984]
       = Finite (1351079888211149 / 4503599627370496)"
  by code_simp



section \<open>Backup codec\<close>

lemma as_type_name: "as_type (type_name t) = Some t"
  by (cases t) (simp_all add: as_type_def type_name_def)

lemma as_stage_name: "as_stage (stage_name s) = Some s"
  by (cases s) (simp_all add: as_stage_def stage_name_def)

lemma as_stringify_Transaction: "as_Transaction (stringify_Transaction t) = Some t"
  by (simp add: stringify_Transaction_def has_exactly_def as_type_name)

lemma as_stringify_Client: "as_Client (stringify_Client c) = Some c"
  by (simp add: stringify_Client_def has_exactly_def)

lemma as_stringify_Opportunity: "as_Opportunity (stringify_Opportunity p) = Some p"
  by (simp add: stringify_Opportunity_def has_exactly_def as_stage_name)

lemma those_map_inverse:
  assumes "\<And>x. f (g x) = Some x"
  shows "those (map (f \<circ> g) xs) = Some xs"
  by (induction xs) (simp_all add: assms)

lemma as_stringify_AppState: "as_AppState (stringify_AppState s) = Some s"
  by (simp add: stringify_AppState_def has_exactly_def those_map_inverse
      as_stringify_Transaction as_stringify_Client as_stringify_Opportunity)

lemma deepCopy_same: "deepCopy s = Some s"
  by (simp add: deepCopy_def as_stringify_AppState)

lemma set_decimal: "set (decimal n) \<subseteq> set ''0123456789''"
proof (induction n rule: decimal.induct)
  case (1 n)
  have d: "\<And>k. k < 10 \<Longrightarrow> digit_char k \<in> set ''0123456789''"
    unfolding digit_char_def by (rule nth_mem) simp
  show ?case
  proof (cases "n < 10")
    case True
    then show ?thesis using d [of n] by (subst decimal.simps) simp
  next
    case False
    then show ?thesis using 1 d [of "n mod 10"] by (subst decimal.simps) simp
  qed
qed

lemma key_not_index:
  assumes "k \<in> {''transactions'', ''clients'', ''opportunities''}"
  shows "k \<notin> set (map decimal [0..<n])"
proof
  assume "k \<in> set (map decimal [0..<n])"
  then obtain i where "k = decimal i" by auto
  then have "set k \<subseteq> set ''0123456789''" using set_decimal by simp
  with assms show False by auto
qed

text \<open>
  C2. A backup document that parses as JSON but lacks at least one of the top-level keys
  \<^verbatim>\<open>transactions\<close>, \<^verbatim>\<open>clients\<close>, \<^verbatim>\<open>opportunities\<close> is rejected by \<^verbatim>\<open>loadBackup\<close> with a
  validation error, whatever the user would answer, and the application object, the live
  state included, is returned as it was: nothing is imported and no missing collection
  is taken as empty. The document \<^verbatim>\<open>{"clients":[]}\<close> is one such document.
\<close>

theorem C2_loadBackup_missing_key:
  assumes "\<not> {''transactions'', ''clients'', ''opportunities''} \<subseteq> top_level_keys doc"
  shows "(\<exists>a. loadBackup (Some (Some doc)) ans app = Some (Failed (ValidationError a), app))
    \<and> loadBackup (Some (Some (JObj [(''clients'', JArr [])]))) ans app
        = Some (Failed (ValidationError ArquivoDeBackupInvalido), app)"
proof -
  have example: "loadBackup (Some (Some (JObj [(''clients'', JArr [])]))) ans app
        = Some (Failed (ValidationError ArquivoDeBackupInvalido), app)"
    by (simp add: loadBackup_def js_and_def)
  have general: "\<exists>a. loadBackup (Some (Some doc)) ans app = Some (Failed (ValidationError a), app)"
  proof (cases doc)
    case (JObj kvs)
    with assms have "js_and (js_in ''transactions'' doc)
        (js_and (js_in ''clients'' doc) (js_in ''opportunities'' doc)) = Some False"
      by (auto simp: js_and_def split: bool.splits)
    then show ?thesis by (simp add: loadBackup_def)
  next
    case (JArr xs)
    have "js_in ''transactions'' doc = Some False"
      using key_not_index [of "''transactions''" "length xs"] JArr by simp
    then show ?thesis by (simp add: loadBackup_def js_and_def)
  qed (simp_all add: loadBackup_def js_and_def)
  from general example show ?thesis by (rule conjI)
qed

theorem C2_loadBackup_missing_key_witness:
  "\<not> {''transactions'', ''clients'', ''opportunities''} \<subseteq> top_level_keys (JObj [(''clients'', JArr [])])
   \<and> loadBackup (Some (Some (JObj [(''clients'', JArr [])]))) Confirmar example_app
        = Some (Failed (ValidationError ArquivoDeBackupInvalido), example_app)"
proof -
  have h: "\<not> {''transactions'', ''clients'', ''opportunities''}
      \<subseteq> top_level_keys (JObj [(''clients'', JArr [])])"
    by simp
  from C2_loadBackup_missing_key [OF h, of Confirmar example_app] h show ?thesis by simp
qed

text \<open>
  C3. Importing the document that \<^verbatim>\<open>saveBackup\<close> writes for a state, and confirming,
  installs a state equal to the exported one, for every state and whatever the importing
  application held before.
\<close>

theorem C3_import_export:
  "loadBackup (Some (Some (saveBackup app))) Confirmar app'
     = Some (Done, navigateTo ''painel'' (saveState (app'\<lparr>state := state app\<rparr>)))
   \<and> state (navigateTo ''painel'' (saveState (app'\<lparr>state := state app\<rparr>))) = state app"
proof -
  have keys: "js_and (js_in ''transactions'' (stringify_AppState (state app)))
      (js_and (js_in ''clients'' (stringify_AppState (state app)))
         (js_in ''opportunities'' (stringify_AppState (state app)))) = Some True"
    by (simp add: stringify_AppState_def js_and_def)
  have "loadBackup (Some (Some (saveBackup app))) Confirmar app'
     = Some (Done, navigateTo ''painel'' (saveState (app'\<lparr>state := state app\<rparr>)))"
    unfolding loadBackup_def saveBackup_def by (simp add: keys as_stringify_AppState)
  moreover have "state (navigateTo ''painel'' (saveState (app'\<lparr>state := state app\<rparr>))) = state app"
    by (simp add: navigateTo_def)
  ultimately show ?thesis by (rule conjI)
qed

theorem C3_import_export_witness:
  "map_option (\<lambda>r. state (snd r)) (loadBackup (Some (Some (saveBackup example_app))) Confirmar fresh_app)
     = Some (state example_app)"
  using C3_import_export [of example_app fresh_app] by simp

section \<open>Clients and referential integrity\<close>

lemma filter_other_ids_remove1:
  "distinct (map f xs) \<Longrightarrow> x \<in> set xs \<Longrightarrow> filter (\<lambda>y. f y \<noteq> f x) xs = remove1 x xs"
proof (induction xs)
  case Nil
  then show ?case by simp
next
  case (Cons y ys)
  show ?case
  proof (cases "y = x")
    case True
    with Cons.prems have "\<forall>z\<in>set ys. f z \<noteq> f x" by (auto simp: image_iff)
    then have "filter (\<lambda>z. f z \<noteq> f x) ys = ys" by (simp add: filter_id_conv)
    with True show ?thesis by simp
  next
    case False
    with Cons.prems have "f y \<noteq> f x" and "x \<in> set ys" and "distinct (map f ys)" by auto
    with Cons.IH False show ?thesis by simp
  qed
qed

lemma handleDeleteClient_unreferenced:
  assumes "\<forall>p\<in>set (opportunities (state app)). op_clientId p \<noteq> cid"
  shows "handleDeleteClient cid Confirmar app
     = (Done, setState (\<lambda>prev. prev\<lparr>clients := filter (\<lambda>c. cl_id c \<noteq> cid) (clients prev)\<rparr>) app)"
proof -
  from assms have "filter (\<lambda>p. op_clientId p = cid) (opportunities (state app)) = []"
    by (simp add: filter_empty_conv)
  then show ?thesis by (simp add: handleDeleteClient_def)
qed

lemma handleDeleteClient_referenced:
  assumes "\<exists>p\<in>set (opportunities (state app)). op_clientId p = cid"
  shows "handleDeleteClient cid ans app
     = (Failed (ReferentialIntegrityError ClienteComOportunidades), app)"
proof -
  from assms have "filter (\<lambda>p. op_clientId p = cid) (opportunities (state app)) \<noteq> []"
    by (simp add: filter_empty_conv)
  then show ?thesis by (simp add: handleDeleteClient_def)
qed

text \<open>
  C5, as the code has it. For every state and client id: when no opportunity refers to
  the id, a confirmed \<^verbatim>\<open>handleDeleteClient\<close> succeeds, the clients left are those with
  another id, in their order, so every record that carries the id is removed (where the
  ids of the clients are distinct that is the list with exactly that client removed), and
  the opportunities and transactions are as before; when some opportunity refers to the
  id, the handler fails with the referential-integrity alert before any confirmation and
  returns the application object, clients and opportunities included, unchanged.
\<close>

theorem C5_handleDeleteClient:
  "((\<forall>p\<in>set (opportunities (state app)). op_clientId p \<noteq> cid) \<longrightarrow>
      fst (handleDeleteClient cid Confirmar app) = Done
      \<and> clients (state (snd (handleDeleteClient cid Confirmar app)))
          = filter (\<lambda>c. cl_id c \<noteq> cid) (clients (state app))
      \<and> (\<forall>c\<in>set (clients (state app)). cl_id c = cid \<longrightarrow>
            distinct (map cl_id (clients (state app))) \<longrightarrow>
            clients (state (snd (handleDeleteClient cid Confirmar app)))
              = remove1 c (clients (state app)))
      \<and> opportunities (state (snd (handleDeleteClient cid Confirmar app)))
          = opportunities (state app)
      \<and> transactions (state (snd (handleDeleteClient cid Confirmar app)))
          = transactions (state app))
   \<and> ((\<exists>p\<in>set (opportunities (state app)). op_clientId p = cid) \<longrightarrow>
        handleDeleteClient cid ans app
          = (Failed (ReferentialIntegrityError ClienteComOportunidades), app))"
proof (intro conjI impI)
  assume free: "\<forall>p\<in>set (opportunities (state app)). op_clientId p \<noteq> cid"
  note run = handleDeleteClient_unreferenced [OF free]
  show "fst (handleDeleteClient cid Confirmar app) = Done"
    by (simp add: run)
  show "clients (state (snd (handleDeleteClient cid Confirmar app)))
      = filter (\<lambda>c. cl_id c \<noteq> cid) (clients (state app))"
    by (simp add: run)
  show "\<forall>c\<in>set (clients (state app)). cl_id c = cid \<longrightarrow>
      distinct (map cl_id (clients (state app))) \<longrightarrow>
      clients (state (snd (handleDeleteClient cid Confirmar app))) = remove1 c (clients (state app))"
    using filter_other_ids_remove1 [of cl_id "clients (state app)"] by (auto simp: run)
  show "opportunities (state (snd (handleDeleteClient cid Confirmar app)))
      = opportunities (state app)"
    by (simp add: run)
  show "transactions (state (snd (handleDeleteClient cid Confirmar app)))
      = transactions (state app)"
    by (simp add: run)
next
  assume "\<exists>p\<in>set (opportunities (state app)). op_clientId p = cid"
  then show "handleDeleteClient cid ans app
      = (Failed (ReferentialIntegrityError ClienteComOportunidades), app)"
    by (rule handleDeleteClient_referenced)
qed

theorem C5_handleDeleteClient_witness:
  "''cl_1'' \<notin> set (map op_clientId (opportunities (state sales_app)))
   \<and> ''cl_2'' \<in> set (map op_clientId (opportunities (state sales_app)))
   \<and> example_client \<in> set (clients (state sales_app))
   \<and> distinct (map cl_id (clients (state sales_app)))
   \<and> fst (handleDeleteClient ''cl_1'' Confirmar sales_app) = Done
   \<and> clients (state (snd (handleDeleteClient ''cl_1'' Confirmar sales_app))) = [other_client]
   \<and> opportunities (state (snd (handleDeleteClient ''cl_1'' Confirmar sales_app)))
       = [example_opportunity]
   \<and> handleDeleteClient ''cl_2'' Confirmar sales_app
       = (Failed (ReferentialIntegrityError ClienteComOportunidades), sales_app)"
proof -
  have h1: "\<forall>p\<in>set (opportunities (state sales_app)). op_clientId p \<noteq> ''cl_1''"
    by (simp add: sales_app_def example_opportunity_def)
  have h2: "\<exists>p\<in>set (opportunities (state sales_app)). op_clientId p = ''cl_2''"
    by (simp add: sales_app_def example_opportunity_def)
  have h3: "example_client \<in> set (clients (state sales_app))"
    "distinct (map cl_id (clients (state sales_app)))"
    "cl_id example_client = ''cl_1''"
    by (simp_all add: sales_app_def example_client_def other_client_def)
  have r: "remove1 example_client (clients (state sales_app)) = [other_client]"
    "opportunities (state sales_app) = [example_opportunity]"
    by (simp_all add: sales_app_def)
  from C5_handleDeleteClient [of sales_app "''cl_1''" Confirmar]
    C5_handleDeleteClient [of sales_app "''cl_2''" Confirmar] h1 h2 h3 r
  show ?thesis by auto
qed

text \<open>
  C5 as stated, for every state, fails where two client records carry the id: no
  opportunity refers to \<^verbatim>\<open>cl_1\<close>, the deletion succeeds, and it removes both records
  with that id, not exactly one client.
\<close>

theorem C5_twin_id_counterexample:
  "''cl_1'' \<notin> set (map op_clientId (opportunities (state twin_app)))
   \<and> clients (state twin_app) = [example_client, twin_client, other_client]
   \<and> cl_id example_client = ''cl_1''
   \<and> cl_id twin_client = ''cl_1''
   \<and> example_client \<noteq> twin_client
   \<and> fst (handleDeleteClient ''cl_1'' Confirmar twin_app) = Done
   \<and> clients (state (snd (handleDeleteClient ''cl_1'' Confirmar twin_app))) = [other_client]
   \<and> clients (state (snd (handleDeleteClient ''cl_1'' Confirmar twin_app)))
       \<noteq> remove1 example_client (clients (state twin_app))
   \<and> clients (state (snd (handleDeleteClient ''cl_1'' Confirmar twin_app)))
       \<noteq> remove1 twin_client (clients (state twin_app))"
  by (simp add: handleDeleteClient_def twin_app_def fresh_app_def example_client_def
      twin_client_def other_client_def example_opportunity_def)

section \<open>Snapshots\<close>

text \<open>
  C8, as the code has it. For an id that no snapshot of the collection carries,
  \<^verbatim>\<open>handleRestoreSnapshot\<close> and \<^verbatim>\<open>handleDeleteSnapshot\<close> return at once, whatever the
  user would answer: no confirmation is asked, no message is shown, nothing is raised,
  and the application object is given back unchanged, so live state, snapshot collection
  and storage are as before.
\<close>

theorem C8_unknown_snapshot_id:
  assumes "sid \<notin> set (map snap_id (snapshots app))"
  shows "handleRestoreSnapshot sid ans app = (NoOp, app)
    \<and> handleDeleteSnapshot sid ans app = (NoOp, app)"
proof -
  from assms have "find (\<lambda>s. snap_id s = sid) (snapshots app) = None"
    by (auto simp: find_None_iff)
  then show ?thesis
    by (simp add: handleRestoreSnapshot_def handleDeleteSnapshot_def)
qed

theorem C8_unknown_snapshot_id_witness:
  "''snap_1'' \<notin> set (map snap_id (snapshots archive_app))
   \<and> handleRestoreSnapshot ''snap_1'' Confirmar archive_app = (NoOp, archive_app)
   \<and> handleDeleteSnapshot ''snap_1'' Confirmar archive_app = (NoOp, archive_app)"
proof -
  have h: "''snap_1'' \<notin> set (map snap_id (snapshots archive_app))"
    by (simp add: archive_app_def sample_snapshot_def)
  from C8_unknown_snapshot_id [OF h, of Confirmar] h show ?thesis by simp
qed

text \<open>
  C8 as stated fails in its first half: with the one snapshot \<^verbatim>\<open>snap_1000\<close> in the
  collection, restoring or deleting \<^verbatim>\<open>snap_1\<close> does not fail with \<open>NotFoundError\<close>; both
  handlers return silently.
\<close>

theorem C8_no_NotFoundError_counterexample:
  "''snap_1'' \<notin> set (map snap_id (snapshots archive_app))
   \<and> fst (handleRestoreSnapshot ''snap_1'' Confirmar archive_app) \<noteq> Failed NotFoundError
   \<and> fst (handleDeleteSnapshot ''snap_1'' Confirmar archive_app) \<noteq> Failed NotFoundError
   \<and> fst (handleRestoreSnapshot ''snap_1'' Confirmar archive_app) = NoOp
   \<and> fst (handleDeleteSnapshot ''snap_1'' Confirmar archive_app) = NoOp"
  by (simp add: handleRestoreSnapshot_def handleDeleteSnapshot_def archive_app_def
      sample_snapshot_def)

section \<open>Snapshot ids\<close>

lemma digit_char_inj: "a < 10 \<Longrightarrow> b < 10 \<Longrightarrow> digit_char a = digit_char b \<Longrightarrow> a = b"
proof -
  assume "a < 10" "b < 10" "digit_char a = digit_char b"
  moreover have "distinct ''0123456789''" by simp
  ultimately show "a = b"
    unfolding digit_char_def by (simp add: nth_eq_iff_index_eq)
qed

lemma decimal_not_Nil: "decimal n \<noteq> []"
  by (subst decimal.simps) simp

lemma decimal_inj: "decimal m = decimal n \<Longrightarrow> m = n"
proof (induction m arbitrary: n rule: decimal.induct)
  case (1 m)
  show ?case
  proof (cases "m < 10")
    case small_m: True
    show ?thesis
    proof (cases "n < 10")
      case True
      with small_m "1.prems" have "digit_char m = digit_char n"
        by (simp add: decimal.simps [of m] decimal.simps [of n])
      with small_m True show ?thesis by (rule digit_char_inj)
    next
      case False
      with small_m "1.prems" have "[digit_char m] = decimal (n div 10) @ [digit_char (n mod 10)]"
        by (simp add: decimal.simps [of m] decimal.simps [of n])
      then have "decimal (n div 10) = []" by simp
      then show ?thesis by (simp add: decimal_not_Nil)
    qed
  next
    case big_m: False
    show ?thesis
    proof (cases "n < 10")
      case True
      with big_m "1.prems" have "decimal (m div 10) @ [digit_char (m mod 10)] = [digit_char n]"
        by (simp add: decimal.simps [of m] decimal.simps [of n])
      then have "decimal (m div 10) = []" by simp
      then show ?thesis by (simp add: decimal_not_Nil)
    next
      case False
      with big_m "1.prems" have
        "decimal (m div 10) @ [digit_char (m mod 10)] = decimal (n div 10) @ [digit_char (n mod 10)]"
        by (simp add: decimal.simps [of m] decimal.simps [of n])
      then have init: "decimal (m div 10) = decimal (n div 10)"
        and last: "digit_char (m mod 10) = digit_char (n mod 10)"
        by simp_all
      from "1.IH" [OF big_m init] have q: "m div 10 = n div 10" .
      from last have r: "m mod 10 = n mod 10" by (intro digit_char_inj) simp_all
      from q r show ?thesis by (metis div_mult_mod_eq)
    qed
  qed
qed

lemma snapshots_handleCreateSnapshot:
  "snapshots (snd (handleCreateSnapshot nameInput now_id now_ts app)) =
     (if trim nameInput = [] then snapshots app
      else snapshots app @ [\<lparr>snap_id = ''snap_'' @ decimal now_id, snap_name = trim nameInput,
             snap_timestamp = now_ts, snap_data = state app\<rparr>])"
  by (simp add: handleCreateSnapshot_def deepCopy_same Let_def)

text \<open>
  C7, as the code has it. The id of a snapshot is \<^verbatim>\<open>snap_\<close> followed by the millisecond
  clock reading taken at its creation. A run of creations keeps the ids of the collection
  pairwise distinct provided they were so before, the clock readings taken for the new
  ids are pairwise distinct, and none of them gives an id the collection already holds.
\<close>

theorem C7_ids_distinct_for_distinct_clock:
  assumes "distinct (map snap_id (snapshots app))"
    and "\<forall>r\<in>set rs. ''snap_'' @ decimal (fst (snd r)) \<notin> set (map snap_id (snapshots app))"
    and "distinct (map (\<lambda>r. fst (snd r)) rs)"
  shows "distinct (map snap_id (snapshots (createSnapshots rs app)))"
  using assms
proof (induction rs arbitrary: app)
  case Nil
  then show ?case by simp
next
  case (Cons r rs)
  obtain nm i t where r: "r = (nm, i, t)" by (cases r)
  let ?app = "snd (handleCreateSnapshot nm i t app)"
  have new_id: "''snap_'' @ decimal i \<notin> set (map snap_id (snapshots app))"
    using Cons.prems(2) by (simp add: r)
  have d: "distinct (map snap_id (snapshots ?app))"
    using Cons.prems(1) new_id by (simp add: snapshots_handleCreateSnapshot)
  have later: "\<forall>q\<in>set rs. fst (snd q) \<noteq> i"
    using Cons.prems(3) by (auto simp: r)
  have f: "\<forall>q\<in>set rs. ''snap_'' @ decimal (fst (snd q)) \<notin> set (map snap_id (snapshots ?app))"
  proof
    fix q assume q: "q \<in> set rs"
    with Cons.prems(2) have "''snap_'' @ decimal (fst (snd q)) \<notin> set (map snap_id (snapshots app))"
      by simp
    moreover from q later have "decimal (fst (snd q)) \<noteq> decimal i"
      using decimal_inj by blast
    ultimately show "''snap_'' @ decimal (fst (snd q)) \<notin> set (map snap_id (snapshots ?app))"
      by (simp add: snapshots_handleCreateSnapshot)
  qed
  have "distinct (map (\<lambda>r. fst (snd r)) rs)" using Cons.prems(3) by simp
  from Cons.IH [OF d f this] show ?case by (simp add: r)
qed

theorem C7_ids_distinct_for_distinct_clock_witness:
  "distinct (map snap_id (snapshots archive_app))
   \<and> distinct (map snap_id (snapshots
       (createSnapshots [(''A'', 1001, 1001), (''B'', 1002, 1003)] archive_app)))
   \<and> map snap_id (snapshots (createSnapshots [(''A'', 1001, 1001), (''B'', 1002, 1003)] archive_app))
       = [''snap_1000'', ''snap_1001'', ''snap_1002'']"
proof -
  have h1: "distinct (map snap_id (snapshots archive_app))"
    by (simp add: archive_app_def)
  have h2: "\<forall>r\<in>set [(''A'', 1001::nat, 1001::nat), (''B'', 1002, 1003)].
      ''snap_'' @ decimal (fst (snd r)) \<notin> set (map snap_id (snapshots archive_app))"
    by (simp add: archive_app_def sample_snapshot_def decimal.simps digit_char_def)
  have h3: "distinct (map (\<lambda>r. fst (snd r)) [(''A'', 1001::nat, 1001::nat), (''B'', 1002, 1003)])"
    by simp
  have ids: "map snap_id (snapshots (createSnapshots [(''A'', 1001, 1001), (''B'', 1002, 1003)] archive_app))
       = [''snap_1000'', ''snap_1001'', ''snap_1002'']"
    by (simp add: snapshots_handleCreateSnapshot trim_sample_names archive_app_def
        sample_snapshot_def decimal.simps digit_char_def)
  from C7_ids_distinct_for_distinct_clock [OF h1 h2 h3] h1 ids show ?thesis by simp
qed

text \<open>
  C7 as stated fails: two creations that read the same millisecond get the same id, so
  the collection then holds two snapshots with one id.
\<close>

theorem C7_same_millisecond_counterexample:
  "\<not> distinct (map snap_id (snapshots
       (createSnapshots [(''A'', 1000, 1000), (''B'', 1000, 1000)] fresh_app)))"
  by (simp add: snapshots_handleCreateSnapshot trim_sample_names fresh_app_def)

section \<open>Wiping all data\<close>

lemma items_saveState:
  "items (localStorage (saveState app)) =
     (if accepts (localStorage app) ''gestor_app_state'' (stringify_AppState (state app))
      then (items (localStorage app))(''gestor_app_state'' \<mapsto> stringify_AppState (state app))
      else items (localStorage app))"
  by (simp add: saveState_def setItem_def)

lemma items_saveSnapshots:
  "items (localStorage (saveSnapshots app)) =
     (if accepts (localStorage app) ''gestor_app_snapshots'' (JArr (map stringify_Snapshot (snapshots app)))
      then (items (localStorage app))(''gestor_app_snapshots'' \<mapsto> JArr (map stringify_Snapshot (snapshots app)))
      else items (localStorage app))"
  by (simp add: saveSnapshots_def setItem_def)

lemma accepts_saveState [simp]: "accepts (localStorage (saveState app)) = accepts (localStorage app)"
  by (simp add: saveState_def setItem_def)

lemma accepts_saveSnapshots [simp]:
  "accepts (localStorage (saveSnapshots app)) = accepts (localStorage app)"
  by (simp add: saveSnapshots_def setItem_def)

text \<open>
  C10, as the code has it. Pressing the confirm button with \<^verbatim>\<open>ZERAR\<close> in the field
  replaces the live state by the empty triple and empties the snapshot collection. Each
  of the two is written under its storage key when the storage accepts that write; a
  write that is rejected is caught, and the stored value stays what it was while the
  wipe in memory stands. With any other text in the field nothing happens.
\<close>

theorem C10_wipe_amended:
  "fst (showWipeDataConfirmation ''ZERAR'' app) = Done
   \<and> state (snd (showWipeDataConfirmation ''ZERAR'' app)) = getInitialState
   \<and> snapshots (snd (showWipeDataConfirmation ''ZERAR'' app)) = []
   \<and> (accepts (localStorage app) ''gestor_app_state'' (stringify_AppState getInitialState) \<longrightarrow>
        items (localStorage (snd (showWipeDataConfirmation ''ZERAR'' app))) ''gestor_app_state''
          = Some (stringify_AppState getInitialState))
   \<and> (accepts (localStorage app) ''gestor_app_snapshots'' (JArr []) \<longrightarrow>
        items (localStorage (snd (showWipeDataConfirmation ''ZERAR'' app))) ''gestor_app_snapshots''
          = Some (JArr []))
   \<and> (\<not> accepts (localStorage app) ''gestor_app_state'' (stringify_AppState getInitialState) \<longrightarrow>
        items (localStorage (snd (showWipeDataConfirmation ''ZERAR'' app))) ''gestor_app_state''
          = items (localStorage app) ''gestor_app_state'')
   \<and> (\<not> accepts (localStorage app) ''gestor_app_snapshots'' (JArr []) \<longrightarrow>
        items (localStorage (snd (showWipeDataConfirmation ''ZERAR'' app))) ''gestor_app_snapshots''
          = items (localStorage app) ''gestor_app_snapshots'')
   \<and> (input \<noteq> ''ZERAR'' \<longrightarrow> showWipeDataConfirmation input app = (NoOp, app))"
  by (simp add: showWipeDataConfirmation_def Let_def navigateTo_def items_saveState
      items_saveSnapshots)

theorem C10_wipe_amended_witness:
  "accepts (localStorage archive_app) ''gestor_app_state'' (stringify_AppState getInitialState)
   \<and> accepts (localStorage archive_app) ''gestor_app_snapshots'' (JArr [])
   \<and> \<not> accepts (localStorage blocked_app) ''gestor_app_state'' (stringify_AppState getInitialState)
   \<and> \<not> accepts (localStorage blocked_app) ''gestor_app_snapshots'' (JArr [])
   \<and> ''ZERA'' \<noteq> ''ZERAR''
   \<and> snapshots archive_app \<noteq> []
   \<and> state (snd (showWipeDataConfirmation ''ZERAR'' archive_app)) = getInitialState
   \<and> snapshots (snd (showWipeDataConfirmation ''ZERAR'' archive_app)) = []
   \<and> items (localStorage (snd (showWipeDataConfirmation ''ZERAR'' archive_app))) ''gestor_app_state''
       = Some (JObj [(''transactions'', JArr []), (''clients'', JArr []), (''opportunities'', JArr [])])
   \<and> items (localStorage (snd (showWipeDataConfirmation ''ZERAR'' archive_app))) ''gestor_app_snapshots''
       = Some (JArr [])
   \<and> items (localStorage (snd (showWipeDataConfirmation ''ZERAR'' blocked_app))) ''gestor_app_state'' = None
   \<and> items (localStorage (snd (showWipeDataConfirmation ''ZERAR'' blocked_app))) ''gestor_app_snapshots'' = None
   \<and> showWipeDataConfirmation ''ZERA'' archive_app = (NoOp, archive_app)"
proof -
  have a: "accepts (localStorage archive_app) ''gestor_app_state'' (stringify_AppState getInitialState)"
    "accepts (localStorage archive_app) ''gestor_app_snapshots'' (JArr [])"
    "snapshots archive_app \<noteq> []"
    by (simp_all add: archive_app_def sales_app_def fresh_app_def empty_storage_def)
  have b: "\<not> accepts (localStorage blocked_app) ''gestor_app_state'' (stringify_AppState getInitialState)"
    "\<not> accepts (localStorage blocked_app) ''gestor_app_snapshots'' (JArr [])"
    "items (localStorage blocked_app) ''gestor_app_state'' = None"
    "items (localStorage blocked_app) ''gestor_app_snapshots'' = None"
    by (simp_all add: blocked_app_def full_storage_def)
  have c: "stringify_AppState getInitialState
      = JObj [(''transactions'', JArr []), (''clients'', JArr []), (''opportunities'', JArr [])]"
    by (simp add: stringify_AppState_def getInitialState_def)
  have d: "''ZERA'' \<noteq> ''ZERAR''" by simp
  from C10_wipe_amended [of archive_app "''ZERA''"] C10_wipe_amended [of blocked_app "''ZERA''"]
    a b c d
  show ?thesis by simp
qed

text \<open>
  C10 as stated fails where the storage rejects the writes: the wipe is done in memory
  and neither the empty state nor the empty collection is stored.
\<close>

theorem C10_wipe_not_persisted_counterexample:
  "fst (showWipeDataConfirmation ''ZERAR'' blocked_app) = Done
   \<and> items (localStorage (snd (showWipeDataConfirmation ''ZERAR'' blocked_app))) ''gestor_app_state''
       \<noteq> Some (stringify_AppState getInitialState)
   \<and> items (localStorage (snd (showWipeDataConfirmation ''ZERAR'' blocked_app))) ''gestor_app_snapshots''
       \<noteq> Some (JArr [])"
  by (simp add: showWipeDataConfirmation_def Let_def navigateTo_def items_saveState
      items_saveSnapshots blocked_app_def full_storage_def)

section \<open>Transaction form\<close>

lemma parseFloat_minus_50: "parseFloat_decimal ''-50'' = - 50"
  by code_simp

text \<open>Where no transaction is under edit, the record the handler appends agrees in sign
  with its type exactly when the parsed amount is not negative.\<close>

lemma created_transaction_sign_agrees_iff:
  assumes "f_description form \<noteq> []" and "f_amountStr form \<noteq> []" and "f_date form \<noteq> []"
    and "editingTransactionId app = None"
  shows "fst (handleTransactionFormSubmit parseFloat form now app) = Done"
    and "butlast (transactions (state (snd (handleTransactionFormSubmit parseFloat form now app))))
      = transactions (state app)"
    and "sign_agrees (last (transactions (state (snd (handleTransactionFormSubmit parseFloat form now app)))))
      \<longleftrightarrow> 0 \<le> parseFloat (f_amountStr form)"
  using assms
  by (auto simp: handleTransactionFormSubmit_def Let_def sign_agrees_def split: TransactionType.splits)

text \<open>
  C9 fails on the code. With \<^verbatim>\<open>-50\<close> in the amount field and the type expense, the
  handler negates the parsed amount and stores an expense of +50, against the comment
  at the computation (the value of an expense is made negative) and the one at the
  field \<^verbatim>\<open>amount\<close> (positive for revenue, negative for expense).
\<close>

theorem C9_negative_entry_breaks_sign_agreement:
  "fst (handleTransactionFormSubmit parseFloat_decimal negative_expense_form 1000 fresh_app) = Done
   \<and> transactions (state (snd (handleTransactionFormSubmit parseFloat_decimal
        negative_expense_form 1000 fresh_app)))
     = [\<lparr>tx_id = ''tx_1000'', tx_description = ''Luz'', tx_amount = 50,
          tx_date = ''2024-05-10'', tx_type = Despesa\<rparr>]
   \<and> \<not> sign_agrees \<lparr>tx_id = ''tx_1000'', tx_description = ''Luz'', tx_amount = 50,
          tx_date = ''2024-05-10'', tx_type = Despesa\<rparr>"
proof -
  have id: "''tx_'' @ decimal 1000 = ''tx_1000''"
    by (simp add: decimal.simps digit_char_def)
  have run: "handleTransactionFormSubmit parseFloat_decimal negative_expense_form 1000 fresh_app
     = (Done, setState (\<lambda>prev. prev\<lparr>transactions := transactions prev @
          [\<lparr>tx_id = ''tx_1000'', tx_description = ''Luz'', tx_amount = 50,
            tx_date = ''2024-05-10'', tx_type = Despesa\<rparr>]\<rparr>) fresh_app)"
    unfolding handleTransactionFormSubmit_def Let_def id
    by (simp add: negative_expense_form_def parseFloat_minus_50 fresh_app_def id)
  have finished: "fst (handleTransactionFormSubmit parseFloat_decimal negative_expense_form 1000 fresh_app)
      = Done"
    unfolding run by simp
  have stored: "transactions (state (snd (handleTransactionFormSubmit parseFloat_decimal
        negative_expense_form 1000 fresh_app)))
     = [\<lparr>tx_id = ''tx_1000'', tx_description = ''Luz'', tx_amount = 50,
          tx_date = ''2024-05-10'', tx_type = Despesa\<rparr>]"
    unfolding run by (simp add: fresh_app_def getInitialState_def)
  have broken: "\<not> sign_agrees \<lparr>tx_id = ''tx_1000'', tx_description = ''Luz'', tx_amount = 50,
          tx_date = ''2024-05-10'', tx_type = Despesa\<rparr>"
    by (simp add: sign_agrees_def)
  from finished stored broken show ?thesis by (intro conjI)
qed

section \<open>Deep copies in the store\<close>

lemma those_map_Some:
  "those (map f xs) = Some ys \<longleftrightarrow> list_all2 (\<lambda>x y. f x = Some y) xs ys"
proof (induction xs arbitrary: ys)
  case Nil
  then show ?case by auto
next
  case (Cons x xs)
  show ?case
  proof (cases "f x")
    case None
    then show ?thesis by (simp add: list_all2_Cons1)
  next
    case (Some y)
    then show ?thesis using Cons.IH by (auto simp: list_all2_Cons1)
  qed
qed

lemma reach_primitive [simp]:
  "reach h VNull = {}" "reach h (VBool b) = {}" "reach h (VNum n) = {}" "reach h (VStr s) = {}"
  by (auto simp: reach_def elim: reaches.cases)

lemma reach_root: "a \<in> reach h (VRef a)"
  by (simp add: reach_def reaches.here)

lemma reach_child:
  "a < length h \<Longrightarrow> c \<in> set (children (h ! a)) \<Longrightarrow> reach h c \<subseteq> reach h (VRef a)"
  by (auto simp: reach_def intro: reaches.below)

lemma reach_ref:
  "reach h (VRef a) =
     insert a (if a < length h then (\<Union>c\<in>set (children (h ! a)). reach h c) else {})"
proof (intro set_eqI iffI)
  fix b assume "b \<in> reach h (VRef a)"
  then have "reaches h (VRef a) b" by (simp add: reach_def)
  then show "b \<in> insert a (if a < length h then (\<Union>c\<in>set (children (h ! a)). reach h c) else {})"
    by (cases rule: reaches.cases) (auto simp: reach_def)
next
  fix b assume "b \<in> insert a (if a < length h then (\<Union>c\<in>set (children (h ! a)). reach h c) else {})"
  then show "b \<in> reach h (VRef a)"
    using reach_root [of a h] reach_child [of a h] by (auto split: if_splits)
qed

lemma stringify_ref_Some:
  "stringify_at stk h (VRef a) = Some t \<longleftrightarrow>
     a \<notin> set stk \<and> a < length h \<and>
     (case h ! a of
        OArr vs \<Rightarrow> \<exists>ts. t = JArr ts \<and> list_all2 (\<lambda>v t. stringify_at (a # stk) h v = Some t) vs ts
      | OObj kvs \<Rightarrow> \<exists>kts. t = JObj kts \<and>
          list_all2 (\<lambda>kv kt. fst kt = fst kv \<and> stringify_at (a # stk) h (snd kv) = Some (snd kt)) kvs kts)"
proof -
  have eq: "(\<lambda>x y. (case x of (k, v) \<Rightarrow> map_option (Pair k) (stringify_at (a # stk) h v)) = Some y)
      = (\<lambda>kv kt. fst kt = fst kv \<and> stringify_at (a # stk) h (snd kv) = Some (snd kt))"
    by (intro ext) (auto split: prod.splits)
  have members: "\<And>kvs kts. those (map (\<lambda>(k, v). map_option (Pair k) (stringify_at (a # stk) h v)) kvs) = Some kts
      \<longleftrightarrow> list_all2 (\<lambda>kv kt. fst kt = fst kv \<and> stringify_at (a # stk) h (snd kv) = Some (snd kt)) kvs kts"
    unfolding those_map_Some eq ..
  show ?thesis
    by (cases "h ! a") (auto simp: those_map_Some eq)
qed

declare stringify_at.simps(5) [simp del]

lemma stringify_valid:
  "stringify_at stk h v = Some t \<Longrightarrow> reach h v \<subseteq> {..<length h}"
proof (induction stk h v arbitrary: t rule: stringify_at.induct)
  case (5 stk h a)
  from "5.prems" have a: "a \<notin> set stk" "a < length h"
    by (simp_all add: stringify_ref_Some)
  have "reach h c \<subseteq> {..<length h}" if c: "c \<in> set (children (h ! a))" for c
  proof (cases "h ! a")
    case (OArr vs)
    with "5.prems" obtain ts where "list_all2 (\<lambda>v t. stringify_at (a # stk) h v = Some t) vs ts"
      by (auto simp: stringify_ref_Some)
    with c OArr obtain t' where "stringify_at (a # stk) h c = Some t'"
      by (auto simp: list_all2_conv_all_nth in_set_conv_nth)
    with "5.IH"(1) [OF _ OArr] a c OArr show ?thesis by auto
  next
    case (OObj kvs)
    with "5.prems" obtain kts where
      l: "list_all2 (\<lambda>kv kt. fst kt = fst kv \<and> stringify_at (a # stk) h (snd kv) = Some (snd kt)) kvs kts"
      by (auto simp: stringify_ref_Some)
    from c OObj obtain kv where kv: "kv \<in> set kvs" "c = snd kv" by auto
    with l obtain t' where "stringify_at (a # stk) h c = Some t'"
      by (auto simp: list_all2_conv_all_nth in_set_conv_nth)
    with "5.IH"(2) [OF _ OObj kv(1), of "fst kv" c] a kv show ?thesis by auto
  qed
  with a show ?case by (auto simp: reach_ref)
qed simp_all

lemma stringify_frame:
  assumes "stringify_at stk h v = Some t"
    and "\<forall>a\<in>reach h v. a < length h' \<and> h' ! a = h ! a"
  shows "stringify_at stk h' v = Some t"
  using assms
proof (induction stk h v arbitrary: t rule: stringify_at.induct)
  case (5 stk h a)
  from "5.prems"(1) have a: "a \<notin> set stk" "a < length h"
    by (simp_all add: stringify_ref_Some)
  from "5.prems"(2) reach_root [of a h] have a': "a < length h'" "h' ! a = h ! a"
    by auto
  have sub: "\<forall>b\<in>reach h c. b < length h' \<and> h' ! b = h ! b" if "c \<in> set (children (h ! a))" for c
    using "5.prems"(2) reach_child [OF a(2) that] by auto
  show ?case
  proof (cases "h ! a")
    case (OArr vs)
    with "5.prems"(1) obtain ts where t: "t = JArr ts"
      and l: "list_all2 (\<lambda>v t. stringify_at (a # stk) h v = Some t) vs ts"
      by (auto simp: stringify_ref_Some)
    have "list_all2 (\<lambda>v t. stringify_at (a # stk) h' v = Some t) vs ts"
      using l
    proof (rule list.rel_mono_strong)
      fix v t' assume "v \<in> set vs" "t' \<in> set ts" "stringify_at (a # stk) h v = Some t'"
      then show "stringify_at (a # stk) h' v = Some t'"
        using "5.IH"(1) [OF _ OArr, of v t'] a sub [of v] OArr by auto
    qed
    with t a a' OArr show ?thesis by (simp add: stringify_ref_Some)
  next
    case (OObj kvs)
    with "5.prems"(1) obtain kts where t: "t = JObj kts"
      and l: "list_all2 (\<lambda>kv kt. fst kt = fst kv \<and> stringify_at (a # stk) h (snd kv) = Some (snd kt)) kvs kts"
      by (auto simp: stringify_ref_Some)
    have "list_all2 (\<lambda>kv kt. fst kt = fst kv \<and> stringify_at (a # stk) h' (snd kv) = Some (snd kt)) kvs kts"
      using l
    proof (rule list.rel_mono_strong)
      fix kv kt assume "kv \<in> set kvs" "kt \<in> set kts"
        "fst kt = fst kv \<and> stringify_at (a # stk) h (snd kv) = Some (snd kt)"
      then show "fst kt = fst kv \<and> stringify_at (a # stk) h' (snd kv) = Some (snd kt)"
        using "5.IH"(2) [OF _ OObj, of kv "fst kv" "snd kv" "snd kt"] a sub [of "snd kv"] OObj
        by auto
    qed
    with t a a' OObj show ?thesis by (simp add: stringify_ref_Some)
  qed
qed simp_all

lemma reach_frame:
  assumes "\<forall>a\<in>reach h v. a < length h \<and> a < length h' \<and> h' ! a = h ! a"
  shows "reach h' v = reach h v"
proof (intro set_eqI iffI)
  fix b assume "b \<in> reach h' v"
  then have "reaches h' v b" by (simp add: reach_def)
  then have "reaches h v b" using assms
  proof (induction rule: reaches.induct)
    case (here a)
    show ?case by (rule reaches.here)
  next
    case (below a c b)
    from below.prems reach_root [of a h] have a: "a < length h" "h' ! a = h ! a" by auto
    with below.hyps have c: "c \<in> set (children (h ! a))" by simp
    from below.prems reach_child [OF a(1) c]
    have "\<forall>x\<in>reach h c. x < length h \<and> x < length h' \<and> h' ! x = h ! x" by auto
    then have "reaches h c b" by (rule below.IH)
    with a(1) c show ?case by (rule reaches.below)
  qed
  then show "b \<in> reach h v" by (simp add: reach_def)
next
  fix b assume "b \<in> reach h v"
  then have "reaches h v b" by (simp add: reach_def)
  then have "reaches h' v b" using assms
  proof (induction rule: reaches.induct)
    case (here a)
    show ?case by (rule reaches.here)
  next
    case (below a c b)
    from below.prems reach_root [of a h] have a: "a < length h'" "h' ! a = h ! a" by auto
    with below.hyps have c: "c \<in> set (children (h' ! a))" by simp
    from below.prems reach_child [OF below.hyps(1) below.hyps(2)]
    have "\<forall>x\<in>reach h c. x < length h \<and> x < length h' \<and> h' ! x = h ! x" by auto
    then have "reaches h' c b" by (rule below.IH)
    with a(1) c show ?case by (rule reaches.below)
  qed
  then show "b \<in> reach h' v" by (simp add: reach_def)
qed

lemma build_extends:
  "prefix h (snd (build t h))"
  "prefix h1 (snd (build_list ts h1))"
  "prefix h2 (snd (build_members kts h2))"
proof (induction t h and ts h1 and kts h2 rule: build_build_list_build_members.induct)
  case (5 ts h)
  then show ?case by (auto split: prod.splits intro: prefix_order.trans)
next
  case (6 kts h)
  then show ?case by (auto split: prod.splits intro: prefix_order.trans)
next
  case (8 t ts h)
  then show ?case by (auto split: prod.splits intro: prefix_order.trans)
next
  case (10 k t kts h)
  then show ?case by (auto split: prod.splits intro: prefix_order.trans)
qed simp_all

lemma build_length:
  "build t h = (v, h') \<Longrightarrow> length h \<le> length h'"
  "build_list ts h = (vs, h') \<Longrightarrow> length h \<le> length h'"
  "build_members kts h = (kvs, h') \<Longrightarrow> length h \<le> length h'"
  using build_extends(1) [of h t] build_extends(2) [of h ts] build_extends(3) [of h kts]
  by (auto dest: prefix_length_le)

lemma build_readback:
  "build t h = (v, h') \<Longrightarrow> \<forall>a\<in>set stk. length h' \<le> a \<Longrightarrow>
     stringify_at stk (h' @ ext) v = Some t"
  "build_list ts h1 = (vs, h1') \<Longrightarrow> \<forall>a\<in>set stk1. length h1' \<le> a \<Longrightarrow>
     list_all2 (\<lambda>v t. stringify_at stk1 (h1' @ ext1) v = Some t) vs ts"
  "build_members kts h2 = (kvs, h2') \<Longrightarrow> \<forall>a\<in>set stk2. length h2' \<le> a \<Longrightarrow>
     list_all2 (\<lambda>kv kt. fst kt = fst kv \<and> stringify_at stk2 (h2' @ ext2) (snd kv) = Some (snd kt))
       kvs kts"
proof (induction t h and ts h1 and kts h2
    arbitrary: v h' stk ext and vs h1' stk1 ext1 and kvs h2' stk2 ext2
    rule: build_build_list_build_members.induct)
  case (5 ts h)
  from "5.prems"(1) obtain vs h1 where b: "build_list ts h = (vs, h1)"
    and v: "v = VRef (length h1)" and h': "h' = h1 @ [OArr vs]"
    by (auto split: prod.splits)
  have stk: "\<forall>a\<in>set (length h1 # stk). length h1 \<le> a"
    using "5.prems"(2) by (auto simp: h')
  from "5.IH" [OF b stk, of "[OArr vs] @ ext"]
  have "list_all2 (\<lambda>v t. stringify_at (length h1 # stk) (h' @ ext) v = Some t) vs ts"
    by (simp add: h')
  moreover have "length h1 \<notin> set stk" using "5.prems"(2) by (auto simp: h')
  moreover have "(h' @ ext) ! length h1 = OArr vs" by (simp add: h' nth_append)
  ultimately show ?case by (simp add: v stringify_ref_Some h')
next
  case (6 kts h)
  from "6.prems"(1) obtain kvs h1 where b: "build_members kts h = (kvs, h1)"
    and v: "v = VRef (length h1)" and h': "h' = h1 @ [OObj kvs]"
    by (auto split: prod.splits)
  have stk: "\<forall>a\<in>set (length h1 # stk). length h1 \<le> a"
    using "6.prems"(2) by (auto simp: h')
  from "6.IH" [OF b stk, of "[OObj kvs] @ ext"]
  have "list_all2 (\<lambda>kv kt. fst kt = fst kv \<and>
      stringify_at (length h1 # stk) (h' @ ext) (snd kv) = Some (snd kt)) kvs kts"
    by (simp add: h')
  moreover have "length h1 \<notin> set stk" using "6.prems"(2) by (auto simp: h')
  moreover have "(h' @ ext) ! length h1 = OObj kvs" by (simp add: h' nth_append)
  ultimately show ?case by (simp add: v stringify_ref_Some h')
next
  case (8 t ts h)
  from "8.prems"(1) obtain v vs' ha where bt: "build t h = (v, ha)"
    and bl: "build_list ts ha = (vs', h1')" and vs: "vs = v # vs'"
    by (auto split: prod.splits)
  from build_extends(2) [of ha ts] bl obtain e where e: "h1' = ha @ e"
    by (auto simp: prefix_def)
  have "\<forall>a\<in>set stk1. length ha \<le> a" using "8.prems"(2) by (auto simp: e)
  from "8.IH"(1) [OF bt this, of "e @ ext1"]
  have hd: "stringify_at stk1 (h1' @ ext1) v = Some t" by (simp add: e)
  from "8.IH"(2) [OF bt [symmetric] bl "8.prems"(2), of ext1]
  have "list_all2 (\<lambda>v t. stringify_at stk1 (h1' @ ext1) v = Some t) vs' ts" .
  with hd show ?case by (simp add: vs)
next
  case (10 k t kts h)
  from "10.prems"(1) obtain v kvs' ha where bt: "build t h = (v, ha)"
    and bl: "build_members kts ha = (kvs', h2')" and kvs: "kvs = (k, v) # kvs'"
    by (auto split: prod.splits)
  from build_extends(3) [of ha kts] bl obtain e where e: "h2' = ha @ e"
    by (auto simp: prefix_def)
  have "\<forall>a\<in>set stk2. length ha \<le> a" using "10.prems"(2) by (auto simp: e)
  from "10.IH"(1) [OF bt this, of "e @ ext2"]
  have hd: "stringify_at stk2 (h2' @ ext2) v = Some t" by (simp add: e)
  from "10.IH"(2) [OF bt [symmetric] bl "10.prems"(2), of ext2]
  have "list_all2 (\<lambda>kv kt. fst kt = fst kv \<and>
      stringify_at stk2 (h2' @ ext2) (snd kv) = Some (snd kt)) kvs' kts" .
  with hd show ?case by (simp add: kvs)
qed auto

lemma build_reach:
  "build t h = (v, h') \<Longrightarrow> reach (h' @ ext) v \<subseteq> {length h..<length h'}"
  "build_list ts h1 = (vs, h1') \<Longrightarrow> \<forall>v\<in>set vs. reach (h1' @ ext1) v \<subseteq> {length h1..<length h1'}"
  "build_members kts h2 = (kvs, h2') \<Longrightarrow>
     \<forall>kv\<in>set kvs. reach (h2' @ ext2) (snd kv) \<subseteq> {length h2..<length h2'}"
proof (induction t h and ts h1 and kts h2
    arbitrary: v h' ext and vs h1' ext1 and kvs h2' ext2
    rule: build_build_list_build_members.induct)
  case (5 ts h)
  from "5.prems"(1) obtain vs h1 where b: "build_list ts h = (vs, h1)"
    and v: "v = VRef (length h1)" and h': "h' = h1 @ [OArr vs]"
    by (auto split: prod.splits)
  from "5.IH" [OF b, of "[OArr vs] @ ext"]
  have "\<forall>c\<in>set vs. reach (h' @ ext) c \<subseteq> {length h..<length h1}" by (simp add: h')
  then have sub: "\<And>c x. c \<in> set vs \<Longrightarrow> x \<in> reach (h' @ ext) c \<Longrightarrow> length h \<le> x \<and> x < length h1"
    by fastforce
  have cell: "(h' @ ext) ! length h1 = OArr vs" by (simp add: h' nth_append)
  have le: "length h \<le> length h1" using b by (rule build_length)
  have "reach (h' @ ext) v = insert (length h1) (\<Union>c\<in>set vs. reach (h' @ ext) c)"
    by (simp add: v reach_ref cell) (simp add: h')
  with sub le show ?case by (fastforce simp: h')
next
  case (6 kts h)
  from "6.prems"(1) obtain kvs h1 where b: "build_members kts h = (kvs, h1)"
    and v: "v = VRef (length h1)" and h': "h' = h1 @ [OObj kvs]"
    by (auto split: prod.splits)
  from "6.IH" [OF b, of "[OObj kvs] @ ext"]
  have "\<forall>kv\<in>set kvs. reach (h' @ ext) (snd kv) \<subseteq> {length h..<length h1}" by (simp add: h')
  then have sub: "\<And>kv x. kv \<in> set kvs \<Longrightarrow> x \<in> reach (h' @ ext) (snd kv) \<Longrightarrow>
      length h \<le> x \<and> x < length h1"
    by fastforce
  have cell: "(h' @ ext) ! length h1 = OObj kvs" by (simp add: h' nth_append)
  have le: "length h \<le> length h1" using b by (rule build_length)
  have "reach (h' @ ext) v = insert (length h1) (\<Union>kv\<in>set kvs. reach (h' @ ext) (snd kv))"
    by (simp add: v reach_ref cell) (simp add: h')
  with sub le show ?case by (fastforce simp: h')
next
  case (8 t ts h)
  from "8.prems"(1) obtain v vs' ha where bt: "build t h = (v, ha)"
    and bl: "build_list ts ha = (vs', h1')" and vs: "vs = v # vs'"
    by (auto split: prod.splits)
  from build_extends(2) [of ha ts] bl obtain e where e: "h1' = ha @ e"
    by (auto simp: prefix_def)
  from "8.IH"(1) [OF bt, of "e @ ext1"]
  have hd: "reach (h1' @ ext1) v \<subseteq> {length h..<length ha}" by (simp add: e)
  from "8.IH"(2) [OF bt [symmetric] bl, of ext1]
  have tl: "\<forall>c\<in>set vs'. reach (h1' @ ext1) c \<subseteq> {length ha..<length h1'}" .
  have "length h \<le> length ha" "length ha \<le> length h1'"
    using bt bl by (auto dest: build_length)
  with hd tl show ?case by (fastforce simp: vs)
next
  case (10 k t kts h)
  from "10.prems"(1) obtain v kvs' ha where bt: "build t h = (v, ha)"
    and bl: "build_members kts ha = (kvs', h2')" and kvs: "kvs = (k, v) # kvs'"
    by (auto split: prod.splits)
  from build_extends(3) [of ha kts] bl obtain e where e: "h2' = ha @ e"
    by (auto simp: prefix_def)
  from "10.IH"(1) [OF bt, of "e @ ext2"]
  have hd: "reach (h2' @ ext2) v \<subseteq> {length h..<length ha}" by (simp add: e)
  from "10.IH"(2) [OF bt [symmetric] bl, of ext2]
  have tl: "\<forall>kv\<in>set kvs'. reach (h2' @ ext2) (snd kv) \<subseteq> {length ha..<length h2'}" .
  have "length h \<le> length ha" "length ha \<le> length h2'"
    using bt bl by (auto dest: build_length)
  with hd tl show ?case by (fastforce simp: kvs)
qed auto

lemma extension_reach:
  assumes "prefix h h'" and "reach h v \<subseteq> {..<length h}"
  shows "reach h' v = reach h v"
proof (rule reach_frame)
  from assms(1) obtain e where "h' = h @ e" by (auto simp: prefix_def)
  with assms(2) show "\<forall>a\<in>reach h v. a < length h \<and> a < length h' \<and> h' ! a = h ! a"
    by (auto simp: nth_append)
qed

lemma extension_stringify:
  assumes "stringify_at stk h v = Some t" and "prefix h h'"
  shows "stringify_at stk h' v = Some t"
proof (rule stringify_frame [OF assms(1)])
  from assms(2) obtain e where "h' = h @ e" by (auto simp: prefix_def)
  with stringify_valid [OF assms(1)] show "\<forall>a\<in>reach h v. a < length h' \<and> h' ! a = h ! a"
    by (auto simp: nth_append)
qed

lemma deepCopy_store_Some:
  assumes "JSON_stringify h v = Some t"
  shows "\<exists>c h'. deepCopy_store h v = Some (c, h') \<and> build t h = (c, h')
     \<and> prefix h h' \<and> JSON_stringify h' c = Some t \<and> reach h' c \<subseteq> {length h..<length h'}"
proof -
  obtain c h' where b: "build t h = (c, h')" by (cases "build t h")
  have "prefix h h'" using build_extends(1) [of h t] b by simp
  moreover have "JSON_stringify h' c = Some t"
    using build_readback(1) [OF b, of "[]" "[]"] by (simp add: JSON_stringify_def)
  moreover have "reach h' c \<subseteq> {length h..<length h'}"
    using build_reach(1) [OF b, of "[]"] by simp
  ultimately show ?thesis using assms b by (simp add: deepCopy_store_def)
qed

lemma spares_at_intact:
  assumes f: "spares_at d f app" and i: "intact app d t"
  shows "intact (f app) d t"
    and "\<forall>a\<in>reach (cells app) d. cells (f app) ! a = cells app ! a"
    and "reach (cells (f app)) d = reach (cells app) d"
    and "snapshot_refs (f app) = snapshot_refs app"
proof -
  let ?h = "cells app" and ?v = "state_ref app"
  let ?h' = "cells (f app)" and ?v' = "state_ref (f app)"
  from i have tree: "stringify_at [] ?h d = Some t"
    and valid: "reach ?h ?v \<subseteq> {..<length ?h}"
    and apart: "reach ?h d \<inter> reach ?h ?v = {}"
    by (simp_all add: intact_def JSON_stringify_def)
  have dvalid: "reach ?h d \<subseteq> {..<length ?h}" using tree by (rule stringify_valid)
  from f have len: "length ?h \<le> length ?h'"
    and untouched: "\<forall>a\<in>reach ?h d. ?h' ! a = ?h ! a"
    and valid': "reach ?h' ?v' \<subseteq> {..<length ?h'}"
    and apart0: "reach ?h' ?v' \<inter> reach ?h d = {}"
    and refs: "snapshot_refs (f app) = snapshot_refs app"
    by (simp_all add: spares_at_def)
  have same: "\<forall>a\<in>reach ?h d. a < length ?h \<and> a < length ?h' \<and> ?h' ! a = ?h ! a"
  proof
    fix a assume a: "a \<in> reach ?h d"
    with dvalid have l: "a < length ?h" by auto
    from a untouched have "?h' ! a = ?h ! a" by simp
    with l len show "a < length ?h \<and> a < length ?h' \<and> ?h' ! a = ?h ! a" by simp
  qed
  have reach_d: "reach ?h' d = reach ?h d" using same by (rule reach_frame)
  have tree': "stringify_at [] ?h' d = Some t"
  proof (rule stringify_frame [OF tree])
    show "\<forall>a\<in>reach ?h d. a < length ?h' \<and> ?h' ! a = ?h ! a" using same by blast
  qed
  have apart': "reach ?h' d \<inter> reach ?h' ?v' = {}"
    unfolding reach_d using apart0 by (simp add: Int_commute)
  show "intact (f app) d t"
    by (simp add: intact_def JSON_stringify_def tree' valid' apart')
  show "\<forall>a\<in>reach (cells app) d. cells (f app) ! a = cells app ! a"
    by (rule untouched)
  show "reach (cells (f app)) d = reach (cells app) d"
    by (rule reach_d)
  show "snapshot_refs (f app) = snapshot_refs app"
    by (rule refs)
qed

lemma spared_run_steps:
  assumes "spared d fs app" and "intact app d t"
  shows "intact (run_steps fs app) d t
    \<and> (\<forall>a\<in>reach (cells app) d. cells (run_steps fs app) ! a = cells app ! a)
    \<and> reach (cells (run_steps fs app)) d = reach (cells app) d
    \<and> snapshot_refs (run_steps fs app) = snapshot_refs app"
  using assms
proof (induction fs arbitrary: app)
  case Nil
  then show ?case by simp
next
  case (Cons f fs)
  from Cons.prems(1) have f: "spares_at d f app" and fs: "spared d fs (f app)" by simp_all
  note step = spares_at_intact [OF f Cons.prems(2)]
  from Cons.IH [OF fs step(1)] step(2,3,4) show ?case by simp
qed

text \<open>Steps that spare the objects of \<open>d\<close> wherever they are run do so in every run that
  starts where \<open>d\<close> is intact.\<close>

lemma spares_spared:
  assumes "\<forall>f\<in>set fs. spares d f" and "intact app d t"
  shows "spared d fs app"
  using assms
proof (induction fs arbitrary: app)
  case Nil
  then show ?case by simp
next
  case (Cons f fs)
  from Cons.prems(1) have f: "spares d f" and fs: "\<forall>f\<in>set fs. spares d f" by simp_all
  let ?h = "cells app" and ?v = "state_ref app"
  from Cons.prems(2) have tree: "stringify_at [] ?h d = Some t"
    and valid: "reach ?h ?v \<subseteq> {..<length ?h}"
    and apart: "reach ?h d \<inter> reach ?h ?v = {}"
    by (simp_all add: intact_def JSON_stringify_def)
  have dvalid: "reach ?h d \<subseteq> {..<length ?h}" using tree by (rule stringify_valid)
  have here: "spares_at d f app"
    by (rule f [unfolded spares_def, THEN spec, THEN mp, OF conjI [OF valid conjI [OF dvalid apart]]])
  from spares_at_intact(1) [OF here Cons.prems(2)] have "intact (f app) d t" .
  from Cons.IH [OF fs this] here show ?case by simp
qed

text \<open>A \<^verbatim>\<open>setState\<close> call with a confined updater spares the objects of every value.\<close>

lemma confined_spares:
  assumes u: "confined u"
  shows "spares d (setState_store u)"
  unfolding spares_def spares_at_def
proof (intro allI impI)
  fix app :: StoreApp
  let ?h = "cells app" and ?v = "state_ref app"
  assume pre: "reach ?h ?v \<subseteq> {..<length ?h} \<and> reach ?h d \<subseteq> {..<length ?h}
      \<and> reach ?h d \<inter> reach ?h ?v = {}"
  then have valid: "reach ?h ?v \<subseteq> {..<length ?h}" and dvalid: "reach ?h d \<subseteq> {..<length ?h}"
    and apart: "reach ?h d \<inter> reach ?h ?v = {}"
    by simp_all
  obtain v' h' where r: "u ?h ?v = (v', h')" by (cases "u ?h ?v")
  have "case u ?h ?v of (v', h') \<Rightarrow>
        length ?h \<le> length h'
        \<and> (\<forall>a<length ?h. a \<notin> reach ?h ?v \<longrightarrow> h' ! a = ?h ! a)
        \<and> reach h' v' \<subseteq> reach ?h ?v \<union> {length ?h..<length h'}"
    by (rule u [unfolded confined_def, THEN spec, THEN spec, THEN mp, OF valid])
  then have len: "length ?h \<le> length h'"
    and untouched: "\<forall>a<length ?h. a \<notin> reach ?h ?v \<longrightarrow> h' ! a = ?h ! a"
    and result: "reach h' v' \<subseteq> reach ?h ?v \<union> {length ?h..<length h'}"
    by (simp_all add: r)
  have app': "setState_store u app = app\<lparr>cells := h', state_ref := v'\<rparr>"
    by (simp add: setState_store_def r)
  have same: "\<forall>a\<in>reach ?h d. h' ! a = ?h ! a"
  proof
    fix a assume a: "a \<in> reach ?h d"
    with dvalid have l: "a < length ?h" by auto
    from a apart have "a \<notin> reach ?h ?v" by auto
    with untouched l show "h' ! a = ?h ! a" by simp
  qed
  have valid': "reach h' v' \<subseteq> {..<length h'}"
  proof
    fix x assume "x \<in> reach h' v'"
    with result have "x \<in> reach ?h ?v \<or> x < length h'" by auto
    with valid len show "x \<in> {..<length h'}" by auto
  qed
  have apart': "reach h' v' \<inter> reach ?h d = {}"
  proof (rule ccontr)
    assume "reach h' v' \<inter> reach ?h d \<noteq> {}"
    then obtain x where x: "x \<in> reach ?h d" "x \<in> reach h' v'" by blast
    from x(2) result have "x \<in> reach ?h ?v \<or> length ?h \<le> x" by auto
    with x(1) apart dvalid show False by auto
  qed
  show "length ?h \<le> length (cells (setState_store u app))
      \<and> (\<forall>a\<in>reach ?h d. cells (setState_store u app) ! a = ?h ! a)
      \<and> reach (cells (setState_store u app)) (state_ref (setState_store u app))
          \<subseteq> {..<length (cells (setState_store u app))}
      \<and> reach (cells (setState_store u app)) (state_ref (setState_store u app)) \<inter> reach ?h d = {}
      \<and> snapshot_refs (setState_store u app) = snapshot_refs app"
    using len same valid' apart' by (simp add: app')
qed

lemma find_appended:
  "\<forall>x\<in>set xs. \<not> P x \<Longrightarrow> P y \<Longrightarrow> find P (xs @ [y]) = Some y"
  by (induction xs) simp_all

lemma confined_replace_by: "confined (replace_by t)"
  unfolding confined_def
proof (intro allI impI)
  fix h v
  obtain v' h' where b: "build t h = (v', h')" by (cases "build t h")
  from build_extends(1) [of h t] b obtain e where e: "h' = h @ e" by (auto simp: prefix_def)
  have "reach h' v' \<subseteq> {length h..<length h'}" using build_reach(1) [OF b, of "[]"] by simp
  then show "case replace_by t h v of (v', h') \<Rightarrow>
      length h \<le> length h' \<and> (\<forall>a<length h. a \<notin> reach h v \<longrightarrow> h' ! a = h ! a)
      \<and> reach h' v' \<subseteq> reach h v \<union> {length h..<length h'}"
    by (auto simp: replace_by_def b e nth_append)
qed

lemma confined_clear_in_place: "confined clear_in_place"
  unfolding confined_def
proof (intro allI impI)
  fix h v
  show "case clear_in_place h v of (v', h') \<Rightarrow>
      length h \<le> length h' \<and> (\<forall>a<length h. a \<notin> reach h v \<longrightarrow> h' ! a = h ! a)
      \<and> reach h' v' \<subseteq> reach h v \<union> {length h..<length h'}"
  proof (cases v)
    case (VRef a)
    show ?thesis
    proof (cases "a < length h")
      case True
      have "reach (h[a := OObj []]) (VRef a) = {a}" using True by (simp add: reach_ref)
      moreover have "a \<in> reach h (VRef a)" by (rule reach_root)
      ultimately show ?thesis using True
        by (auto simp: clear_in_place_def VRef nth_list_update)
    next
      case False
      then show ?thesis by (simp add: clear_in_place_def VRef)
    qed
  qed (simp_all add: clear_in_place_def)
qed

lemma put_member_values:
  "snd ` set (put_member k v kvs) \<subseteq> insert v (snd ` set kvs)"
  by (auto simp: put_member_def)

text \<open>The allocation of the handler and the updater that captures the new object, taken
  together, are a confined updater.\<close>

lemma confined_allocate_append:
  "confined (\<lambda>h prev. append_captured (VRef (length h)) (h @ [object_of_Transaction tx]) prev)"
  unfolding confined_def
proof (intro allI impI)
  fix h v
  assume valid: "reach h v \<subseteq> {..<length h}"
  let ?ob = "object_of_Transaction tx"
  let ?h1 = "h @ [?ob]"
  let ?nt = "VRef (length h)"
  let ?goal = "case append_captured ?nt ?h1 v of (v', h') \<Rightarrow>
      length h \<le> length h' \<and> (\<forall>a<length h. a \<notin> reach h v \<longrightarrow> h' ! a = h ! a)
      \<and> reach h' v' \<subseteq> reach h v \<union> {length h..<length h'}"
  show ?goal
  proof (cases "\<exists>a kvs ts. v = VRef a \<and> a < length ?h1 \<and> ?h1 ! a = OObj kvs
      \<and> Option.bind (map_of kvs ''transactions'') (iterate ?h1) = Some ts")
    case False
    then have "append_captured ?nt ?h1 v = (v, ?h1)"
      by (auto simp: append_captured_def split: jsval.splits jsobj.splits option.splits)
    moreover have "reach ?h1 v = reach h v"
      by (rule extension_reach) (use valid in simp_all)
    ultimately show ?thesis by (auto simp: nth_append)
  next
    case True
    then obtain a kvs ts x where v: "v = VRef a" and a1: "a < length ?h1" and obj1: "?h1 ! a = OObj kvs"
      and x: "map_of kvs ''transactions'' = Some x" and ts: "iterate ?h1 x = Some ts"
      by (auto simp: bind_eq_Some_conv)
    from valid reach_root [of a h] have a: "a < length h" unfolding v by auto
    with obj1 have obj: "h ! a = OObj kvs" by (simp add: nth_append)
    let ?root = "VRef (Suc (length h))"
    let ?arr = "VRef (Suc (Suc (length h)))"
    let ?h' = "?h1 @ [OObj (put_member ''transactions'' ?arr kvs), OArr (ts @ [?nt])]"
    have run: "append_captured ?nt ?h1 v = (?root, ?h')"
      using a1 obj1 x ts by (simp add: append_captured_def v)
    have pre: "prefix h ?h'" by simp
    have old: "reach ?h' c = reach h c" if "reach h c \<subseteq> reach h v" for c
      using pre by (rule extension_reach) (use that valid in auto)
    have member: "reach ?h' c \<subseteq> reach h v" if "c \<in> snd ` set kvs" for c
    proof -
      from that obj have "c \<in> set (children (h ! a))" by simp
      then have "reach h c \<subseteq> reach h v" unfolding v using a by (intro reach_child)
      with old [of c] show ?thesis by simp
    qed
    have x_child: "reach h x \<subseteq> reach h v"
    proof -
      from x have "x \<in> snd ` set kvs" by (force dest: map_of_SomeD)
      with obj have "x \<in> set (children (h ! a))" by simp
      then show ?thesis unfolding v using a by (intro reach_child)
    qed
    have element: "reach ?h' c \<subseteq> reach h v" if c: "c \<in> set ts" for c
    proof (cases x)
      case (VStr s)
      with ts c show ?thesis by (auto simp: iterate_def)
    next
      case (VRef b)
      from x_child valid reach_root [of b h] have b: "b < length h" unfolding VRef by auto
      with ts VRef have arr: "h ! b = OArr ts"
        by (auto simp: iterate_def nth_append split: if_splits jsobj.splits)
      with c b have "reach h c \<subseteq> reach h (VRef b)" by (intro reach_child) simp_all
      with x_child VRef have "reach h c \<subseteq> reach h v" by simp
      with old [of c] show ?thesis by simp
    qed (use ts in \<open>simp_all add: iterate_def\<close>)
    have new_tx: "reach ?h' ?nt = {length h}"
      by (subst reach_ref) (simp add: nth_append object_of_Transaction_def)
    have arr_eq: "reach ?h' ?arr = insert (Suc (Suc (length h))) (\<Union>c\<in>set (ts @ [?nt]). reach ?h' c)"
      by (subst reach_ref) (simp add: nth_append)
    have arr: "reach ?h' ?arr \<subseteq> reach h v \<union> {length h..<length ?h'}"
    proof
      fix y assume "y \<in> reach ?h' ?arr"
      then consider "y = Suc (Suc (length h))" | c where "c \<in> set ts" "y \<in> reach ?h' c"
        | "y \<in> reach ?h' ?nt"
        unfolding arr_eq by auto
      then show "y \<in> reach h v \<union> {length h..<length ?h'}"
      proof cases
        case 1
        then show ?thesis by simp
      next
        case 2
        with element show ?thesis by blast
      next
        case 3
        then show ?thesis unfolding new_tx by simp
      qed
    qed
    have root_eq: "reach ?h' ?root
        = insert (Suc (length h))
            (\<Union>c\<in>snd ` set (put_member ''transactions'' ?arr kvs). reach ?h' c)"
      by (subst reach_ref) (simp add: nth_append)
    have result: "reach ?h' ?root \<subseteq> reach h v \<union> {length h..<length ?h'}"
    proof
      fix y assume "y \<in> reach ?h' ?root"
      then consider "y = Suc (length h)"
        | c where "c \<in> snd ` set (put_member ''transactions'' ?arr kvs)" "y \<in> reach ?h' c"
        unfolding root_eq by blast
      then show "y \<in> reach h v \<union> {length h..<length ?h'}"
      proof cases
        case 1
        then show ?thesis by simp
      next
        case 2
        from 2(1) put_member_values [of "''transactions''" ?arr kvs]
        have "c = ?arr \<or> c \<in> snd ` set kvs" by blast
        with 2(2) arr member show ?thesis by blast
      qed
    qed
    have untouched: "\<forall>a<length h. a \<notin> reach h v \<longrightarrow> ?h' ! a = h ! a"
      by (simp add: nth_append)
    have len: "length h \<le> length ?h'" by simp
    from len untouched result show ?thesis
      unfolding run by simp
  qed
qed

lemma handleTransactionFormSubmit_store_setState:
  "handleTransactionFormSubmit_store tx
     = setState_store (\<lambda>h prev. append_captured (VRef (length h)) (h @ [object_of_Transaction tx]) prev)"
  by (intro ext) (simp add: handleTransactionFormSubmit_store_def setState_store_def Let_def
      split: prod.splits)

lemma spares_handleTransactionFormSubmit_store:
  "spares d (handleTransactionFormSubmit_store tx)"
  unfolding handleTransactionFormSubmit_store_setState
  by (rule confined_spares) (rule confined_allocate_append)

text \<open>
  The same taken apart: the allocation of the record is one step, and the \<^verbatim>\<open>setState\<close>
  call whose updater has captured the record, at its address, is the next. In a run
  that starts where \<open>d\<close> is intact the two spare the objects of \<open>d\<close>.
\<close>

lemma append_captured_length:
  "length h \<le> length (snd (append_captured nt h v))"
  by (simp add: append_captured_def split: jsval.splits jsobj.splits option.splits)

lemma allocate_then_capture_spared:
  assumes i: "intact app d t"
  shows "spared d
      [\<lambda>a. a\<lparr>cells := cells a @ [object_of_Transaction tx]\<rparr>,
       setState_store (append_captured (VRef (length (cells app))))] app"
proof -
  let ?h = "cells app" and ?v = "state_ref app" and ?ob = "object_of_Transaction tx"
  let ?alloc = "\<lambda>a :: StoreApp. a\<lparr>cells := cells a @ [?ob]\<rparr>"
  let ?set = "setState_store (append_captured (VRef (length ?h)))"
  let ?app1 = "app\<lparr>cells := ?h @ [?ob]\<rparr>"
  let ?handled = "handleTransactionFormSubmit_store tx app"
  from i have tree: "stringify_at [] ?h d = Some t"
    and valid: "reach ?h ?v \<subseteq> {..<length ?h}"
    and apart: "reach ?h d \<inter> reach ?h ?v = {}"
    by (simp_all add: intact_def JSON_stringify_def)
  have dvalid: "reach ?h d \<subseteq> {..<length ?h}" using tree by (rule stringify_valid)
  have handled: "?handled = ?set ?app1"
    by (simp add: handleTransactionFormSubmit_store_def Let_def)
  have "spares_at d (handleTransactionFormSubmit_store tx) app"
    by (rule spares_handleTransactionFormSubmit_store [unfolded spares_def, THEN spec, THEN mp,
          OF conjI [OF valid conjI [OF dvalid apart]]])
  then have untouched: "\<forall>a\<in>reach ?h d. cells ?handled ! a = ?h ! a"
    and valid': "reach (cells ?handled) (state_ref ?handled) \<subseteq> {..<length (cells ?handled)}"
    and apart': "reach (cells ?handled) (state_ref ?handled) \<inter> reach ?h d = {}"
    and refs: "snapshot_refs ?handled = snapshot_refs app"
    by (simp_all add: spares_at_def)
  have ext_d: "reach (?h @ [?ob]) d = reach ?h d"
    by (rule extension_reach) (use dvalid in simp_all)
  have ext_v: "reach (?h @ [?ob]) ?v = reach ?h ?v"
    by (rule extension_reach) (use valid in simp_all)
  have same1: "\<forall>a\<in>reach ?h d. (?h @ [?ob]) ! a = ?h ! a"
    using dvalid by (auto simp: nth_append)
  have first: "spares_at d ?alloc app"
    unfolding spares_at_def using same1 valid apart by (auto simp: ext_v)
  have len2: "length (cells ?app1) \<le> length (cells (?set ?app1))"
    using append_captured_length [of "?h @ [?ob]" "VRef (length ?h)" ?v]
    by (cases "append_captured (VRef (length ?h)) (?h @ [?ob]) ?v") (simp add: setState_store_def)
  have second: "spares_at d ?set ?app1"
    unfolding spares_at_def
  proof (intro conjI)
    show "length (cells ?app1) \<le> length (cells (?set ?app1))" by (rule len2)
    show "\<forall>a\<in>reach (cells ?app1) d. cells (?set ?app1) ! a = cells ?app1 ! a"
      using untouched same1 by (simp add: handled [symmetric] ext_d)
    show "reach (cells (?set ?app1)) (state_ref (?set ?app1)) \<subseteq> {..<length (cells (?set ?app1))}"
      using valid' by (simp add: handled [symmetric])
    show "reach (cells (?set ?app1)) (state_ref (?set ?app1)) \<inter> reach (cells ?app1) d = {}"
      using apart' by (simp add: handled [symmetric] ext_d)
    show "snapshot_refs (?set ?app1) = snapshot_refs ?app1"
      using refs by (simp add: handled [symmetric])
  qed
  from first second show ?thesis by simp
qed

text \<open>On the sample state the form handler appends the new transaction.\<close>

lemma handleTransactionFormSubmit_store_appends:
  "JSON_stringify
     (cells (handleTransactionFormSubmit_store example_tx (store_app (state sales_app))))
     (state_ref (handleTransactionFormSubmit_store example_tx (store_app (state sales_app))))
   = Some (stringify_AppState ((state sales_app)\<lparr>transactions := [example_tx, example_tx]\<rparr>))"
  by code_simp

text \<open>A name of white space only, here a no-break space, is refused.\<close>

lemma handleCreateSnapshot_store_blank:
  "handleCreateSnapshot_store [CHR 0x20, CHR 0xC2, CHR 0xA0] now_id now_ts app
     = (Failed (ValidationError InsiraNomeSnapshot), app)"
  by (simp add: handleCreateSnapshot_store_def trim_def trimStart.simps trimEnd.simps
      white_space_def suffix_to_prefix)

lemma store_app_tree:
  "JSON_stringify (cells (store_app s)) (state_ref (store_app s)) = Some (stringify_AppState s)"
proof -
  obtain v h where b: "build (stringify_AppState s) [] = (v, h)"
    by (cases "build (stringify_AppState s) []")
  from build_readback(1) [OF b, of "[]" "[]"] show ?thesis
    by (simp add: store_app_def b JSON_stringify_def)
qed

lemma snapshot_refs_store_app [simp]: "snapshot_refs (store_app s) = []"
  by (simp add: store_app_def split: prod.splits)

lemma replace_by_tree:
  "JSON_stringify (cells (setState_store (replace_by t) app))
     (state_ref (setState_store (replace_by t) app)) = Some t"
proof -
  obtain v h where b: "build t (cells app) = (v, h)" by (cases "build t (cells app)")
  from build_readback(1) [OF b, of "[]" "[]"] show ?thesis
    by (simp add: setState_store_def replace_by_def b JSON_stringify_def)
qed

lemma decimal_1000: "decimal 1000 = ''1000''"
  by (simp add: decimal.simps digit_char_def)

lemma created_snapshot:
  assumes "JSON_stringify (cells app) (state_ref app) = Some t" and "trim nameInput \<noteq> []"
  shows "\<exists>c h1. handleCreateSnapshot_store nameInput now_id now_ts app
        = (Done, app\<lparr>cells := h1, snapshot_refs := snapshot_refs app @
             [\<lparr>ss_id = ''snap_'' @ decimal now_id, ss_name = trim nameInput,
               ss_timestamp = now_ts, ss_data = c\<rparr>]\<rparr>)
      \<and> prefix (cells app) h1 \<and> JSON_stringify h1 c = Some t
      \<and> intact (app\<lparr>cells := h1, snapshot_refs := snapshot_refs app @
             [\<lparr>ss_id = ''snap_'' @ decimal now_id, ss_name = trim nameInput,
               ss_timestamp = now_ts, ss_data = c\<rparr>]\<rparr>) c t"
proof -
  let ?h = "cells app" and ?v = "state_ref app"
  from deepCopy_store_Some [OF assms(1)] obtain c h1 where
    copy: "deepCopy_store ?h ?v = Some (c, h1)" and ext1: "prefix ?h h1"
    and tree_c: "JSON_stringify h1 c = Some t" and reach_c: "reach h1 c \<subseteq> {length ?h..<length h1}"
    by blast
  have valid_v: "reach ?h ?v \<subseteq> {..<length ?h}"
    using assms(1) unfolding JSON_stringify_def by (rule stringify_valid)
  have reach_v1: "reach h1 ?v = reach ?h ?v" using ext1 valid_v by (rule extension_reach)
  have len1: "length ?h \<le> length h1" using ext1 by (rule prefix_length_le)
  have v1: "reach h1 ?v \<subseteq> {..<length h1}"
    unfolding reach_v1 using valid_v len1 by auto
  have a1: "reach h1 c \<inter> reach h1 ?v = {}"
  proof (rule ccontr)
    assume "reach h1 c \<inter> reach h1 ?v \<noteq> {}"
    then obtain x where "x \<in> reach h1 c" "x \<in> reach ?h ?v" unfolding reach_v1 by blast
    with reach_c valid_v have "length ?h \<le> x" "x < length ?h" by auto
    then show False by simp
  qed
  have "intact (app\<lparr>cells := h1, snapshot_refs := snapshot_refs app @
             [\<lparr>ss_id = ''snap_'' @ decimal now_id, ss_name = trim nameInput,
               ss_timestamp = now_ts, ss_data = c\<rparr>]\<rparr>) c t"
    unfolding intact_def by (simp add: tree_c v1 a1)
  with copy ext1 tree_c show ?thesis using assms(2)
    by (intro exI [of _ c] exI [of _ h1]) (simp add: handleCreateSnapshot_store_def Let_def)
qed

lemma restored_snapshot:
  assumes "find (\<lambda>s. ss_id s = sid) (snapshot_refs app) = Some s"
    and "JSON_stringify (cells app) (ss_data s) = Some t"
  shows "JSON_stringify (cells (snd (handleRestoreSnapshot_store sid Confirmar app)))
      (state_ref (snd (handleRestoreSnapshot_store sid Confirmar app))) = Some t"
proof -
  from deepCopy_store_Some [OF assms(2)] obtain c h1 where
    "deepCopy_store (cells app) (ss_data s) = Some (c, h1)" "JSON_stringify h1 c = Some t"
    by blast
  then show ?thesis
    by (simp add: handleRestoreSnapshot_store_def assms(1))
qed

text \<open>
  C4, as the code has it. Let the live state read as the document \<open>t\<close>. A snapshot is
  created under a name that is not blank and at a clock reading whose id no snapshot of
  the collection carries yet; then any number of steps follow, each of which, where it
  is run, spares the objects of the snapshot's data, as the \<^verbatim>\<open>setState\<close> calls of the
  source do; then the snapshot is restored by its id and the restore is confirmed. Both
  handlers succeed, and afterwards the live state reads as \<open>t\<close> again. The data of the
  snapshot share no object with the live state after the creation, after the steps and
  after the restore. The restore leaves the collection and every object of the
  snapshot's data as they were, so the snapshot still reads as \<open>t\<close>.
\<close>

theorem C4_snapshot_restore:
  assumes tree: "JSON_stringify (cells app) (state_ref app) = Some t"
    and name: "trim nameInput \<noteq> []"
    and fresh: "''snap_'' @ decimal now_id \<notin> set (map ss_id (snapshot_refs app))"
    and fs: "spared (ss_data snapshot) fs created"
    and created: "created = snd (handleCreateSnapshot_store nameInput now_id now_ts app)"
    and updated: "updated = run_steps fs created"
    and restored: "restored = snd (handleRestoreSnapshot_store (''snap_'' @ decimal now_id) Confirmar updated)"
    and snapshot: "snapshot = last (snapshot_refs created)"
  shows "fst (handleCreateSnapshot_store nameInput now_id now_ts app) = Done
    \<and> fst (handleRestoreSnapshot_store (''snap_'' @ decimal now_id) Confirmar updated) = Done
    \<and> JSON_stringify (cells restored) (state_ref restored) = Some t
    \<and> ss_id snapshot = ''snap_'' @ decimal now_id
    \<and> ss_name snapshot = trim nameInput
    \<and> JSON_stringify (cells created) (ss_data snapshot) = Some t
    \<and> reach (cells created) (ss_data snapshot) \<inter> reach (cells created) (state_ref created) = {}
    \<and> reach (cells updated) (ss_data snapshot) \<inter> reach (cells updated) (state_ref updated) = {}
    \<and> reach (cells restored) (ss_data snapshot) \<inter> reach (cells restored) (state_ref restored) = {}
    \<and> snapshot_refs updated = snapshot_refs created
    \<and> snapshot_refs restored = snapshot_refs created
    \<and> JSON_stringify (cells restored) (ss_data snapshot) = Some t
    \<and> (\<forall>a\<in>reach (cells created) (ss_data snapshot). cells restored ! a = cells created ! a)"
proof -
  let ?h = "cells app" and ?v = "state_ref app" and ?id = "''snap_'' @ decimal now_id"
  \<comment> \<open>creation\<close>
  from created_snapshot [OF tree name, where now_id = now_id and now_ts = now_ts]
  obtain c h1 where
    run1: "handleCreateSnapshot_store nameInput now_id now_ts app
      = (Done, app\<lparr>cells := h1, snapshot_refs := snapshot_refs app @
           [\<lparr>ss_id = ?id, ss_name = trim nameInput, ss_timestamp = now_ts, ss_data = c\<rparr>]\<rparr>)"
    and i0: "intact (app\<lparr>cells := h1, snapshot_refs := snapshot_refs app @
           [\<lparr>ss_id = ?id, ss_name = trim nameInput, ss_timestamp = now_ts, ss_data = c\<rparr>]\<rparr>) c t"
    by blast
  let ?s = "\<lparr>ss_id = ?id, ss_name = trim nameInput, ss_timestamp = now_ts, ss_data = c\<rparr>"
  have cr: "created = app\<lparr>cells := h1, snapshot_refs := snapshot_refs app @ [?s]\<rparr>"
    by (simp add: created run1)
  have snap: "snapshot = ?s" by (simp add: snapshot cr)
  have i1: "intact created c t"
    unfolding cr by (rule i0)
  \<comment> \<open>steps\<close>
  from fs have fs_c: "spared c fs created" by (simp add: snap)
  note i2 = spared_run_steps [OF fs_c i1, folded updated]
  note int2 = i2 [THEN conjunct1]
  note same2 = i2 [THEN conjunct2, THEN conjunct1]
  note reach2 = i2 [THEN conjunct2, THEN conjunct2, THEN conjunct1]
  note refs2 = i2 [THEN conjunct2, THEN conjunct2, THEN conjunct2]
  from int2 have tree2: "JSON_stringify (cells updated) c = Some t"
    and valid2: "reach (cells updated) (state_ref updated) \<subseteq> {..<length (cells updated)}"
    and apart2: "reach (cells updated) c \<inter> reach (cells updated) (state_ref updated) = {}"
    by (simp_all add: intact_def)
  \<comment> \<open>restore\<close>
  have "\<forall>x\<in>set (snapshot_refs app). \<not> ss_id x = ?id" using fresh by force
  then have "find (\<lambda>s. ss_id s = ?id) (snapshot_refs app @ [?s]) = Some ?s"
    by (rule find_appended) simp
  moreover have "snapshot_refs created = snapshot_refs app @ [?s]" by (simp add: cr)
  ultimately have found: "find (\<lambda>s. ss_id s = ?id) (snapshot_refs updated) = Some ?s"
    by (simp only: refs2)
  from deepCopy_store_Some [OF tree2] obtain c3 h3 where
    copy3: "deepCopy_store (cells updated) c = Some (c3, h3)" and ext3: "prefix (cells updated) h3"
    and tree3: "JSON_stringify h3 c3 = Some t"
    and reach3: "reach h3 c3 \<subseteq> {length (cells updated)..<length h3}"
    by blast
  have run3: "handleRestoreSnapshot_store ?id Confirmar updated
      = (Done, updated\<lparr>cells := h3, state_ref := c3\<rparr>)"
    unfolding handleRestoreSnapshot_store_def found by (simp add: copy3)
  then have re: "restored = updated\<lparr>cells := h3, state_ref := c3\<rparr>" by (simp add: restored)
  have valid_c2: "reach (cells updated) c \<subseteq> {..<length (cells updated)}"
    using tree2 unfolding JSON_stringify_def by (rule stringify_valid)
  have reach_c3: "reach h3 c = reach (cells updated) c"
    using ext3 valid_c2 by (rule extension_reach)
  have tree_c3: "JSON_stringify h3 c = Some t"
    using tree2 ext3 unfolding JSON_stringify_def by (rule extension_stringify)
  from ext3 obtain e3 where e3: "h3 = cells updated @ e3" by (auto simp: prefix_def)
  have same3: "\<forall>a\<in>reach (cells created) c. h3 ! a = cells created ! a"
  proof
    fix a assume a: "a \<in> reach (cells created) c"
    then have "a \<in> reach (cells updated) c" by (simp only: reach2)
    with valid_c2 have "a < length (cells updated)" by auto
    then have "h3 ! a = cells updated ! a" by (simp add: e3 nth_append)
    with same2 a show "h3 ! a = cells created ! a" by simp
  qed
  have apart3: "reach h3 c \<inter> reach h3 c3 = {}"
  proof (rule ccontr)
    assume "reach h3 c \<inter> reach h3 c3 \<noteq> {}"
    then obtain x where "x \<in> reach (cells updated) c" "x \<in> reach h3 c3"
      unfolding reach_c3 by blast
    with reach3 valid_c2 have "length (cells updated) \<le> x" "x < length (cells updated)" by auto
    then show False by simp
  qed
  have apart1: "reach (cells created) c \<inter> reach (cells created) (state_ref created) = {}"
    using i1 by (simp add: intact_def)
  have tree1: "JSON_stringify (cells created) c = Some t"
    using i1 by (simp add: intact_def)
  have data: "ss_data snapshot = c" by (simp add: snap)
  have cells3: "cells restored = h3" and state3: "state_ref restored = c3"
    and refs3: "snapshot_refs restored = snapshot_refs created"
    by (simp_all add: re refs2)
  have c1: "fst (handleCreateSnapshot_store nameInput now_id now_ts app) = Done"
    by (simp add: run1)
  have c2: "fst (handleRestoreSnapshot_store ?id Confirmar updated) = Done"
    unfolding run3 by simp
  have c3: "JSON_stringify (cells restored) (state_ref restored) = Some t"
    by (simp only: cells3 state3 tree3)
  have c4: "ss_id snapshot = ?id" and c5: "ss_name snapshot = trim nameInput"
    by (simp_all add: snap)
  have c6: "JSON_stringify (cells created) (ss_data snapshot) = Some t"
    by (simp only: data tree1)
  have c7: "reach (cells created) (ss_data snapshot) \<inter> reach (cells created) (state_ref created) = {}"
    by (simp only: data apart1)
  have c8: "reach (cells updated) (ss_data snapshot) \<inter> reach (cells updated) (state_ref updated) = {}"
    by (simp only: data apart2)
  have c9: "reach (cells restored) (ss_data snapshot) \<inter> reach (cells restored) (state_ref restored) = {}"
    by (simp only: data cells3 state3 apart3)
  have c10: "JSON_stringify (cells restored) (ss_data snapshot) = Some t"
    by (simp only: data cells3 tree_c3)
  have c11: "\<forall>a\<in>reach (cells created) (ss_data snapshot). cells restored ! a = cells created ! a"
    unfolding data cells3 by (rule same3)
  from c1 c2 c3 c4 c5 c6 c7 c8 c9 refs2 refs3 c10 c11 show ?thesis
    by (intro conjI)
qed

theorem C4_snapshot_restore_witness:
  "trim ''Q1'' \<noteq> []
   \<and> spared (ss_data (last (snapshot_refs scenario_created))) scenario_steps scenario_created
   \<and> JSON_stringify (cells scenario_updated) (state_ref scenario_updated)
       = Some (stringify_AppState getInitialState)
   \<and> JSON_stringify (cells scenario_restored) (state_ref scenario_restored)
       = Some (stringify_AppState (state sales_app))
   \<and> JSON_stringify (cells scenario_restored) (ss_data (last (snapshot_refs scenario_created)))
       = Some (stringify_AppState (state sales_app))
   \<and> reach (cells scenario_restored) (ss_data (last (snapshot_refs scenario_created)))
       \<inter> reach (cells scenario_restored) (state_ref scenario_restored) = {}"
proof -
  let ?app = "store_app (state sales_app)" and ?t = "stringify_AppState (state sales_app)"
  have name: "trim ''Q1'' \<noteq> []" by (simp add: trim_sample_names)
  have fresh: "''snap_'' @ decimal 1000 \<notin> set (map ss_id (snapshot_refs ?app))"
    by simp
  from created_snapshot [OF store_app_tree [of "state sales_app"] name,
      where now_id = 1000 and now_ts = 1000]
  obtain c h1 where
    run: "handleCreateSnapshot_store ''Q1'' 1000 1000 ?app
      = (Done, ?app\<lparr>cells := h1, snapshot_refs := snapshot_refs ?app @
           [\<lparr>ss_id = ''snap_'' @ decimal 1000, ss_name = trim ''Q1'', ss_timestamp = 1000,
             ss_data = c\<rparr>]\<rparr>)"
    and i: "intact (?app\<lparr>cells := h1, snapshot_refs := snapshot_refs ?app @
           [\<lparr>ss_id = ''snap_'' @ decimal 1000, ss_name = trim ''Q1'', ss_timestamp = 1000,
             ss_data = c\<rparr>]\<rparr>) c ?t"
    by blast
  have data: "ss_data (last (snapshot_refs scenario_created)) = c"
    unfolding scenario_created_def run by simp
  have i': "intact scenario_created c ?t"
    unfolding scenario_created_def run snd_conv by (rule i)
  have each: "\<forall>f\<in>set scenario_steps. spares c f"
    by (simp add: scenario_steps_def spares_handleTransactionFormSubmit_store confined_spares
        confined_clear_in_place confined_replace_by)
  have fs: "spared (ss_data (last (snapshot_refs scenario_created))) scenario_steps scenario_created"
    unfolding data using each i' by (rule spares_spared)
  have updated: "JSON_stringify (cells scenario_updated) (state_ref scenario_updated)
       = Some (stringify_AppState getInitialState)"
    by (simp add: scenario_updated_def scenario_steps_def replace_by_tree)
  from C4_snapshot_restore [OF store_app_tree name fresh fs scenario_created_def
      scenario_updated_def scenario_restored_def refl] name fs updated
  show ?thesis by simp
qed

text \<open>
  C4 as stated, for every creation, fails where the id is already taken: ids come from
  the millisecond clock, \<^verbatim>\<open>find\<close> returns the first snapshot with the id, and the
  restore of the second of two snapshots made in the same millisecond installs the
  state of the first.
\<close>

theorem C4_same_id_counterexample:
  "JSON_stringify (cells collision_before_second) (state_ref collision_before_second)
     = Some (stringify_AppState (state sales_app))
   \<and> JSON_stringify (cells collision_restored) (state_ref collision_restored)
     = Some (stringify_AppState getInitialState)
   \<and> stringify_AppState getInitialState \<noteq> stringify_AppState (state sales_app)"
proof -
  let ?t0 = "stringify_AppState getInitialState" and ?t1 = "stringify_AppState (state sales_app)"
  let ?app0 = "store_app getInitialState"
  let ?before = collision_before_second
  have nameA: "trim ''A'' \<noteq> []" and nameB: "trim ''B'' \<noteq> []"
    by (simp_all add: trim_sample_names)
  from created_snapshot [OF store_app_tree [of getInitialState] nameA,
      where now_id = 1000 and now_ts = 1000]
  obtain cA h1 where
    runA: "handleCreateSnapshot_store ''A'' 1000 1000 ?app0
        = (Done, ?app0\<lparr>cells := h1, snapshot_refs := snapshot_refs ?app0 @
             [\<lparr>ss_id = ''snap_'' @ decimal 1000, ss_name = trim ''A'', ss_timestamp = 1000,
               ss_data = cA\<rparr>]\<rparr>)"
    and treeA: "JSON_stringify h1 cA = Some ?t0"
    by blast
  let ?A = "\<lparr>ss_id = ''snap_'' @ decimal 1000, ss_name = trim ''A'', ss_timestamp = 1000,
      ss_data = cA\<rparr>"
  obtain v2 h2 where b2: "build ?t1 h1 = (v2, h2)" by (cases "build ?t1 h1")
  have before: "?before = ?app0\<lparr>cells := h2, state_ref := v2, snapshot_refs := [?A]\<rparr>"
    unfolding collision_before_second_def runA
    by (simp add: setState_store_def replace_by_def b2)
  have refs_before: "snapshot_refs ?before = [?A]" and cells_before: "cells ?before = h2"
    unfolding before by simp_all
  have ext2: "prefix h1 h2" using build_extends(1) [of h1 ?t1] b2 by simp
  have tree_live: "JSON_stringify (cells ?before) (state_ref ?before) = Some ?t1"
    unfolding collision_before_second_def by (rule replace_by_tree)
  have treeA2: "JSON_stringify h2 cA = Some ?t0"
    using treeA ext2 unfolding JSON_stringify_def by (rule extension_stringify)
  from created_snapshot [OF tree_live nameB, where now_id = 1000 and now_ts = 1000]
  obtain cB h3 where
    runB: "handleCreateSnapshot_store ''B'' 1000 1000 ?before
        = (Done, ?before\<lparr>cells := h3, snapshot_refs := snapshot_refs ?before @
             [\<lparr>ss_id = ''snap_'' @ decimal 1000, ss_name = trim ''B'', ss_timestamp = 1000,
               ss_data = cB\<rparr>]\<rparr>)"
    and ext3: "prefix (cells ?before) h3"
    by blast
  let ?B = "\<lparr>ss_id = ''snap_'' @ decimal 1000, ss_name = trim ''B'', ss_timestamp = 1000,
      ss_data = cB\<rparr>"
  let ?app3 = "?before\<lparr>cells := h3, snapshot_refs := snapshot_refs ?before @ [?B]\<rparr>"
  have refs3: "snapshot_refs ?app3 = [?A, ?B]" by (simp add: refs_before)
  have found: "find (\<lambda>s. ss_id s = ''snap_1000'') (snapshot_refs ?app3) = Some ?A"
    unfolding refs3 by (simp add: decimal_1000)
  have "JSON_stringify h3 cA = Some ?t0"
    using treeA2 ext3 unfolding JSON_stringify_def cells_before by (rule extension_stringify)
  then have treeA3: "JSON_stringify (cells ?app3) (ss_data ?A) = Some ?t0" by simp
  have "collision_restored = snd (handleRestoreSnapshot_store ''snap_1000'' Confirmar ?app3)"
    unfolding collision_restored_def runB by simp
  then have restored: "JSON_stringify (cells collision_restored) (state_ref collision_restored) = Some ?t0"
    using restored_snapshot [OF found treeA3] by simp
  have differ: "?t0 \<noteq> ?t1"
    by (simp add: stringify_AppState_def getInitialState_def sales_app_def)
  from tree_live restored differ show ?thesis by (intro conjI)
qed

end
